theory Spec2Isabelle
  imports Complex_Main
begin

chapter \<open>The model\<close>

section \<open>JavaScript numbers\<close>

text \<open>
  The print server computes with JavaScript Numbers (IEEE 754 binary64). A Number is
  modelled by its exact value: \<open>Fin q\<close> is the finite double whose value is the rational
  \<open>q\<close>. The two zeros are one value \<open>Fin 0\<close>: the handlers consume numbers only through
  \<open>*\<close>, \<open>+\<close>, \<open>||\<close>, \<open>toFixed\<close> and \<open>toString\<close>, and none of them tells \<open>-0\<close> from
  \<open>+0\<close> (\<open>(-0).toFixed(2)\<close> is \<open>"0.00"\<close>, \<open>(-0).toString()\<close> is \<open>"0"\<close>, \<open>-0 || 0\<close> is
  \<open>0\<close>).
\<close>

datatype jsnum = NaN | PInf | NInf | Fin rat

text \<open>The number of digits of a positive integer \<open>n\<close> in base \<open>b\<close>.\<close>

function idigits :: "int \<Rightarrow> int \<Rightarrow> int" where
  "idigits b n = (if n \<le> 0 \<or> b < 2 then 0 else 1 + idigits b (n div b))"
  by pat_completeness auto
termination
  by (relation "measure (\<lambda>(b, n). nat n)") (auto intro!: int_div_less_self simp: zless_nat_conj)

declare idigits.simps [simp del]

text \<open>\<open>flog b q\<close> is \<open>\<lfloor>log\<^sub>b q\<rfloor>\<close> for a positive rational \<open>q\<close>.\<close>

definition flog :: "int \<Rightarrow> rat \<Rightarrow> int" where
  "flog b q = (if 1 \<le> q then idigits b \<lfloor>q\<rfloor> - 1 else - idigits b (\<lceil>1 / q\<rceil> - 1))"

text \<open>Rounding a non-negative rational to the nearest integer, ties to even.\<close>

definition round_half_even :: "rat \<Rightarrow> int" where
  "round_half_even y =
     (let f = \<lfloor>y\<rfloor>; d = y - of_int f
      in if d < 1 / 2 then f else if 1 / 2 < d then f + 1
         else if even f then f else f + 1)"

text \<open>
  \<open>rnd q\<close> is the Number for the real value \<open>q\<close>: round to nearest, ties to even, with
  53 significant bits, exponents from \<open>-1022\<close> (below that the spacing stays
  \<open>2\<^sup>-\<^sup>1\<^sup>0\<^sup>7\<^sup>4\<close>: subnormals) and overflow to an infinity once the rounded magnitude
  reaches \<open>2\<^sup>1\<^sup>0\<^sup>2\<^sup>4\<close>, that is when the exponent exceeds 1023 or the significand
  rounds up to \<open>2\<^sup>5\<^sup>3\<close> at exponent 1023.
\<close>

definition rnd :: "rat \<Rightarrow> jsnum" where
  "rnd q =
     (if q = 0 then Fin 0
      else let e = max (flog 2 \<bar>q\<bar>) (- 1022);
               u = 2 powi (e - 52);
               m = round_half_even (\<bar>q\<bar> / u)
           in if 1023 < e then (if q < 0 then NInf else PInf)
              else if e = 1023 then
                (if m = 9007199254740992 then (if q < 0 then NInf else PInf)
                 else Fin (if q < 0 then - (of_int m * u) else of_int m * u))
              else Fin (if q < 0 then - (of_int m * u) else of_int m * u))"

text \<open>Multiplication and addition of Numbers.\<close>

fun jmul :: "jsnum \<Rightarrow> jsnum \<Rightarrow> jsnum" where
  "jmul NaN _ = NaN"
| "jmul _ NaN = NaN"
| "jmul (Fin a) (Fin b) = rnd (a * b)"
| "jmul (Fin a) PInf = (if a = 0 then NaN else if a < 0 then NInf else PInf)"
| "jmul (Fin a) NInf = (if a = 0 then NaN else if a < 0 then PInf else NInf)"
| "jmul PInf (Fin b) = (if b = 0 then NaN else if b < 0 then NInf else PInf)"
| "jmul NInf (Fin b) = (if b = 0 then NaN else if b < 0 then PInf else NInf)"
| "jmul PInf PInf = PInf"
| "jmul PInf NInf = NInf"
| "jmul NInf PInf = NInf"
| "jmul NInf NInf = PInf"

fun jadd :: "jsnum \<Rightarrow> jsnum \<Rightarrow> jsnum" where
  "jadd NaN _ = NaN"
| "jadd _ NaN = NaN"
| "jadd (Fin a) (Fin b) = rnd (a + b)"
| "jadd PInf NInf = NaN"
| "jadd NInf PInf = NaN"
| "jadd PInf _ = PInf"
| "jadd NInf _ = NInf"
| "jadd (Fin a) PInf = PInf"
| "jadd (Fin a) NInf = NInf"

text \<open>\<open>x || 0\<close> on a Number: \<open>NaN\<close> and zero are falsy.\<close>

definition or_zero :: "jsnum \<Rightarrow> jsnum" where
  "or_zero x = (if x = NaN \<or> x = Fin 0 then Fin 0 else x)"

section \<open>Strings and numerals\<close>

definition is_digit :: "char \<Rightarrow> bool" where
  "is_digit c = (48 \<le> (of_char c :: int) \<and> (of_char c :: int) \<le> 57)"

definition digit_val :: "char \<Rightarrow> int" where
  "digit_val c = of_char c - 48"

definition digit_char :: "int \<Rightarrow> char" where
  "digit_char d = char_of (48 + d)"

text \<open>The value of a string of decimal digits.\<close>

definition dec_value :: "string \<Rightarrow> int" where
  "dec_value ds = foldl (\<lambda>a c. 10 * a + digit_val c) 0 ds"

text \<open>
  The decimal digits of a non-negative integer, without leading zeros (\<open>"0"\<close> for
  zero).
\<close>

function show_nat :: "int \<Rightarrow> string" where
  "show_nat n = (if n < 10 then [digit_char n] else show_nat (n div 10) @ [digit_char (n mod 10)])"
  by pat_completeness auto
termination
  by (relation "measure nat") (auto intro!: int_div_less_self simp: zless_nat_conj)

declare show_nat.simps [simp del]

definition show_int :: "int \<Rightarrow> string" where
  "show_int i = (if i < 0 then CHR ''-'' # show_nat (- i) else show_nat i)"

text \<open>
  White space that \<open>parseFloat\<close> and \<open>parseInt\<close> skip at the start of their input, among
  the characters a \<open>char\<close> holds: TAB, LF, VT, FF, CR, SP and NBSP.
\<close>

definition is_ws :: "char \<Rightarrow> bool" where
  "is_ws c = ((of_char c :: int) \<in> {9, 10, 11, 12, 13, 32, 160})"

text \<open>An optional sign: whether it is a minus, and the rest of the string.\<close>

fun take_sign :: "string \<Rightarrow> bool \<times> string" where
  "take_sign [] = (False, [])"
| "take_sign (c # cs) =
     (if c = CHR ''-'' then (True, cs) else if c = CHR ''+'' then (False, cs) else (False, c # cs))"

text \<open>
  The exponent part of a decimal literal at the start of a string: \<open>e\<close> or \<open>E\<close>, an
  optional sign and at least one digit. Anything else is no exponent part.
\<close>

definition exponent_part :: "string \<Rightarrow> int" where
  "exponent_part s =
     (case s of
        [] \<Rightarrow> 0
      | c # cs \<Rightarrow>
          if c = CHR ''e'' \<or> c = CHR ''E'' then
            (let (neg, r) = take_sign cs; ds = takeWhile is_digit r
             in if ds = [] then 0
                else if neg then - dec_value ds else dec_value ds)
          else 0)"

text \<open>
  \<open>parseFloat\<close> on a string: skip leading white space, then read the longest prefix that
  is a decimal literal (sign, \<open>Infinity\<close>, or digits with an optional fraction and
  exponent); \<open>NaN\<close> when there is none.
\<close>

definition parseFloat_str :: "string \<Rightarrow> jsnum" where
  "parseFloat_str s =
     (let (neg, t) = take_sign (dropWhile is_ws s)
      in if take 8 t = ''Infinity'' then (if neg then NInf else PInf)
         else
           let ip = takeWhile is_digit t;
               r1 = dropWhile is_digit t;
               has_dot = (r1 \<noteq> [] \<and> hd r1 = CHR ''.'');
               fp = (if has_dot then takeWhile is_digit (tl r1) else []);
               r2 = (if has_dot then dropWhile is_digit (tl r1) else r1)
           in if ip = [] \<and> fp = [] then NaN
              else
                let v = of_int (dec_value (ip @ fp)) * 10 powi (exponent_part r2 - int (length fp))
                in rnd (if neg then - v else v))"

text \<open>Digits of radix 16 for \<open>parseInt\<close>'s \<open>0x\<close> prefix.\<close>

definition is_hex :: "char \<Rightarrow> bool" where
  "is_hex c =
     (let n = (of_char c :: int)
      in (48 \<le> n \<and> n \<le> 57) \<or> (97 \<le> n \<and> n \<le> 102) \<or> (65 \<le> n \<and> n \<le> 70))"

definition hex_val :: "char \<Rightarrow> int" where
  "hex_val c =
     (let n = (of_char c :: int)
      in if n \<le> 57 then n - 48 else if 97 \<le> n then n - 87 else n - 55)"

text \<open>
  \<open>parseInt\<close> on a string with no radix argument: skip leading white space, an optional
  sign, radix 16 after a \<open>0x\<close> or \<open>0X\<close> prefix and 10 otherwise, then the longest run of
  digits of that radix; \<open>NaN\<close> when the run is empty. The value of the digits is taken
  exactly before it is rounded to a Number (an implementation may drop decimal digits
  after the twentieth).
\<close>

definition parseInt_str :: "string \<Rightarrow> jsnum" where
  "parseInt_str s =
     (let (neg, t) = take_sign (dropWhile is_ws s)
      in if take 2 t = ''0x'' \<or> take 2 t = ''0X'' then
           (let ds = takeWhile is_hex (drop 2 t);
                v = foldl (\<lambda>a c. 16 * a + hex_val c) 0 ds
            in if ds = [] then NaN else rnd (if neg then - of_int v else of_int v))
         else
           (let ds = takeWhile is_digit t
            in if ds = [] then NaN
               else rnd (if neg then - of_int (dec_value ds) else of_int (dec_value ds))))"

section \<open>Number to string\<close>

text \<open>
  \<open>Number::toString\<close> prints a positive finite Number \<open>x\<close> from integers \<open>s\<close>, \<open>k\<close>, \<open>n\<close>
  with \<open>10\<^sup>k\<^sup>-\<^sup>1 \<le> s < 10\<^sup>k\<close>, such that \<open>s \<times> 10\<^sup>n\<^sup>-\<^sup>k\<close> rounds to \<open>x\<close> and \<open>k\<close> is as small as
  possible. For a given \<open>k\<close> the candidates are the two integers around \<open>x / 10\<^sup>n\<^sup>-\<^sup>k\<close>, for
  \<open>n\<close> the number of integer digits of \<open>x\<close> or one more.
\<close>

definition shortest_cands :: "rat \<Rightarrow> int \<Rightarrow> (int \<times> int) list" where
  "shortest_cands x k =
     (let n0 = flog 10 x + 1
      in concat (map (\<lambda>n. let t = \<lfloor>x / 10 powi (n - k)\<rfloor>
                          in filter (\<lambda>(s, n). 10 ^ nat (k - 1) \<le> s \<and> s < 10 ^ nat k \<and>
                                       rnd (of_int s * 10 powi (n - k)) = Fin x)
                               [(t, n), (t + 1, n)])
                   [n0, n0 + 1]))"

text \<open>Among several candidates the one closest to \<open>x\<close> is taken, an even \<open>s\<close> on a tie.\<close>

definition closer :: "rat \<Rightarrow> int \<Rightarrow> int \<times> int \<Rightarrow> int \<times> int \<Rightarrow> bool" where
  "closer x k c1 c2 =
     (let d1 = \<bar>of_int (fst c1) * 10 powi (snd c1 - k) - x\<bar>;
          d2 = \<bar>of_int (fst c2) * 10 powi (snd c2 - k) - x\<bar>
      in d1 < d2 \<or> (d1 = d2 \<and> even (fst c1)))"

definition pick_closest :: "rat \<Rightarrow> int \<Rightarrow> int \<times> int \<Rightarrow> (int \<times> int) list \<Rightarrow> int \<times> int" where
  "pick_closest x k c cs = foldl (\<lambda>a b. if closer x k b a then b else a) c cs"

text \<open>
  The search for the least \<open>k\<close>, from \<open>k\<close> upwards with a bound on the steps. Every double
  is the rounding of its 17-digit decimal, so from \<open>k = 1\<close> with 17 steps the search ends
  in the first equation's \<open>Some\<close> branch; \<open>None\<close> is returned for a rational that is not
  a double.
\<close>

fun shortest :: "rat \<Rightarrow> int \<Rightarrow> nat \<Rightarrow> (int \<times> int \<times> int) option" where
  "shortest x k 0 = None"
| "shortest x k (Suc fuel) =
     (case shortest_cands x k of
        [] \<Rightarrow> shortest x (k + 1) fuel
      | c # cs \<Rightarrow> (let (s, n) = pick_closest x k c cs in Some (s, k, n)))"

text \<open>The layout of the digits: plain decimal for \<open>-5 \<le> n \<le> 21\<close>, exponent form otherwise.\<close>

definition fmt_digits :: "int \<Rightarrow> int \<Rightarrow> int \<Rightarrow> string" where
  "fmt_digits s k n =
     (let ds = show_nat s
      in if - 5 \<le> n \<and> n \<le> 21 then
           (if k \<le> n then ds @ replicate (nat (n - k)) (CHR ''0'')
            else if 0 < n then take (nat n) ds @ ''.'' @ drop (nat n) ds
            else ''0.'' @ replicate (nat (- n)) (CHR ''0'') @ ds)
         else
           (let es = (if 0 \<le> n - 1 then ''+'' else ''-'') @ show_nat \<bar>n - 1\<bar>
            in if k = 1 then ds @ ''e'' @ es
               else take 1 ds @ ''.'' @ drop 1 ds @ ''e'' @ es))"

definition toString_pos :: "rat \<Rightarrow> string" where
  "toString_pos x =
     (case shortest x 1 17 of
        Some (s, k, n) \<Rightarrow> fmt_digits s k n
      | None \<Rightarrow> (let n = flog 10 x + 1 in fmt_digits \<lfloor>x / 10 powi (n - 17) + 1 / 2\<rfloor> 17 n))"

text \<open>\<open>Number.prototype.toString()\<close>, radix 10.\<close>

fun num_toString :: "jsnum \<Rightarrow> string" where
  "num_toString NaN = ''NaN''"
| "num_toString PInf = ''Infinity''"
| "num_toString NInf = ''-Infinity''"
| "num_toString (Fin x) =
     (if x = 0 then ''0'' else if x < 0 then ''-'' @ toString_pos (- x) else toString_pos x)"

text \<open>
  \<open>Number.prototype.toFixed(2)\<close>: a non-finite Number prints as \<open>toString\<close> does; a
  magnitude of at least \<open>10\<^sup>2\<^sup>1\<close> too; otherwise the integer \<open>n\<close> nearest to \<open>100 \<times> |x|\<close>
  (the larger one on a tie) is printed with at least three digits and a point before the
  last two. A negative \<open>x\<close> gets a minus sign, also when \<open>n\<close> is zero.
\<close>

definition fixed2_digits :: "int \<Rightarrow> string" where
  "fixed2_digits n =
     (let m = show_nat n;
          m' = (if length m \<le> 2 then replicate (3 - length m) (CHR ''0'') @ m else m)
      in take (length m' - 2) m' @ ''.'' @ drop (length m' - 2) m')"

definition toFixed2_pos :: "rat \<Rightarrow> string" where
  "toFixed2_pos x =
     (if 10 ^ 21 \<le> x then toString_pos x else fixed2_digits \<lfloor>x * 100 + 1 / 2\<rfloor>)"

fun toFixed2 :: "jsnum \<Rightarrow> string" where
  "toFixed2 NaN = ''NaN''"
| "toFixed2 PInf = ''Infinity''"
| "toFixed2 NInf = ''-Infinity''"
| "toFixed2 (Fin x) = (if x < 0 then ''-'' @ toFixed2_pos (- x) else toFixed2_pos x)"

section \<open>Request values\<close>

text \<open>
  The fields of a parsed JSON body that the handlers read: a missing field reads as
  \<open>undefined\<close>; a present one is \<open>null\<close>, a boolean, a number or a string. An invoice item
  is an object, a finite map from field names to such values; object- or array-valued
  \<open>price\<close> and \<open>quantity\<close> fields are not part of this input type.
\<close>

datatype jsval = Undefined | Null | Bool bool | Num jsnum | Str string

type_synonym item = "string \<rightharpoonup> jsval"

definition get_prop :: "item \<Rightarrow> string \<Rightarrow> jsval" where
  "get_prop obj k = (case obj k of None \<Rightarrow> Undefined | Some v \<Rightarrow> v)"

fun to_string :: "jsval \<Rightarrow> string" where
  "to_string Undefined = ''undefined''"
| "to_string Null = ''null''"
| "to_string (Bool b) = (if b then ''true'' else ''false'')"
| "to_string (Num x) = num_toString x"
| "to_string (Str s) = s"

fun truthy :: "jsval \<Rightarrow> bool" where
  "truthy Undefined = False"
| "truthy Null = False"
| "truthy (Bool b) = b"
| "truthy (Num x) = (x \<noteq> NaN \<and> x \<noteq> Fin 0)"
| "truthy (Str s) = (s \<noteq> [])"

text \<open>\<open>parseFloat(v)\<close> and \<open>parseInt(v)\<close> convert their argument to a string first.\<close>

definition parseFloat :: "jsval \<Rightarrow> jsnum" where
  "parseFloat v = parseFloat_str (to_string v)"

definition parseInt :: "jsval \<Rightarrow> jsnum" where
  "parseInt v = parseInt_str (to_string v)"

section \<open>Line items: subtotals and total\<close>

text \<open>\<open>s.replace(/[^0-9.-]+/g, "")\<close>: only digits, points and minus signs are kept.\<close>

definition strip_non_numeric :: "string \<Rightarrow> string" where
  "strip_non_numeric s = filter (\<lambda>c. is_digit c \<or> c = CHR ''.'' \<or> c = CHR ''-'') s"

text \<open>
  The price of an item, as the handler's \<open>map\<close> callback computes it. The conditional
  expression binds weaker than \<open>||\<close>: the default \<open>|| 0\<close> belongs to the second branch
  only.
\<close>

definition item_price :: "item \<Rightarrow> jsnum" where
  "item_price it =
     (case get_prop it ''price'' of
        Str s \<Rightarrow>
          if s \<noteq> ''0.00'' then parseFloat_str (strip_non_numeric s)
          else or_zero (parseFloat (Str s))
      | v \<Rightarrow> or_zero (parseFloat v))"

definition item_quantity :: "item \<Rightarrow> jsnum" where
  "item_quantity it = or_zero (parseInt (get_prop it ''quantity''))"

definition item_subtotal :: "item \<Rightarrow> jsnum" where
  "item_subtotal it = jmul (item_quantity it) (item_price it)"

text \<open>The callback's result: the item's own fields, three of them overwritten.\<close>

definition with_subtotal :: "item \<Rightarrow> item" where
  "with_subtotal it =
     it(''price'' \<mapsto> Str (toFixed2 (item_price it)),
        ''quantity'' \<mapsto> Str (num_toString (item_quantity it)),
        ''subtotal'' \<mapsto> Str (toFixed2 (item_subtotal it)))"

definition itemsWithSubtotals :: "item list \<Rightarrow> item list" where
  "itemsWithSubtotals items = map with_subtotal items"

definition calculatedTotal :: "item list \<Rightarrow> string" where
  "calculatedTotal its =
     toFixed2 (foldl (\<lambda>sum it. jadd sum (parseFloat (get_prop it ''subtotal''))) (Fin 0) its)"

section \<open>The environment of a request\<close>

text \<open>
  What a request does outside the process is recorded as a list of effects, in the order
  the calls are made. What the outside answers is read from a record of the host's
  state: each field is the answer the corresponding call would get.
\<close>

type_synonym buffer = string

datatype effect =
    Launched nat
  | Closed nat
  | Waited int
  | LoggedFailure nat
  | WroteFile string buffer
  | Executed string
  | Unlinked string
  | UnlinkFailed string
  | HttpPost string

record template_data =
  td_invoiceId :: jsval
  td_customerName :: jsval
  td_items :: "item list"
  td_total :: string
  td_date :: string

text \<open>
  One pass through the \<open>try\<close> block of the template renderer: the template cannot be
  read or bound, the browser does not launch, the browser launches and a later step
  (new page, viewport, content, export) fails, or the PDF is produced. The string is the
  \<open>message\<close> of the error thrown.
\<close>

datatype attempt =
    TemplateFails string
  | LaunchFails string
  | PageFails string
  | PdfReady buffer

datatype exec_result = ExecRejects string | ExecResolves string string

datatype http_result = HttpOk jsval | HttpFails "string option" string

record print_job =
  job_printerId :: jsval
  job_title :: string
  job_contentType :: string
  job_content :: string
  job_source :: string
  job_media :: string
  job_n :: int

record host =
  tmp_exists :: bool
  platform :: string
  tmpdir :: string
  path_join :: "string \<Rightarrow> string \<Rightarrow> string"
  now :: int
  today :: string
  write_error :: "string option"
  exec :: "string \<Rightarrow> exec_result"
  unlink_error :: "string option"
  attempts :: "template_data \<Rightarrow> nat \<Rightarrow> attempt"
  pdfkit :: "template_data \<Rightarrow> string + buffer"
  base64 :: "string \<Rightarrow> string"
  http_post :: "string \<Rightarrow> string \<Rightarrow> print_job \<Rightarrow> http_result"

record print_result =
  pr_success :: bool
  pr_message :: string
  pr_jobId :: "jsval option"

definition failed :: "string \<Rightarrow> print_result" where
  "failed msg = \<lparr>pr_success = False, pr_message = msg, pr_jobId = None\<rparr>"

definition submitted :: "jsval option \<Rightarrow> print_result" where
  "submitted job =
     \<lparr>pr_success = True, pr_message = ''Print job submitted successfully'', pr_jobId = job\<rparr>"

section \<open>The template renderer with retries\<close>

datatype render_result = Rendered buffer | RenderThrew string | RenderUndefined

text \<open>What the \<open>try\<close> block ends with: the error caught, or the buffer returned.\<close>

fun attempt_outcome :: "attempt \<Rightarrow> string + buffer" where
  "attempt_outcome (TemplateFails m) = Inl m"
| "attempt_outcome (LaunchFails m) = Inl m"
| "attempt_outcome (PageFails m) = Inl m"
| "attempt_outcome (PdfReady pdfBuffer) = Inr pdfBuffer"

text \<open>
  The variable \<open>browser\<close> is declared outside the loop. An attempt that gets past
  \<open>puppeteer.launch\<close> assigns the new instance to it (named here by the number of the
  attempt); any other attempt leaves the previous value.
\<close>

fun launches :: "attempt \<Rightarrow> bool" where
  "launches (PageFails m) = True"
| "launches (PdfReady b) = True"
| "launches _ = False"

definition browser_after :: "attempt \<Rightarrow> nat \<Rightarrow> nat option \<Rightarrow> nat option" where
  "browser_after a i browser = (if launches a then Some i else browser)"

definition launch_effects :: "attempt \<Rightarrow> nat \<Rightarrow> effect list" where
  "launch_effects a i = (if launches a then [Launched i] else [])"

text \<open>The \<open>finally\<close> block: \<open>browser.close()\<close> if \<open>browser\<close> is set; an error of \<open>close\<close> is logged.\<close>

definition finally_close :: "nat option \<Rightarrow> effect list" where
  "finally_close browser = (case browser of None \<Rightarrow> [] | Some b \<Rightarrow> [Closed b])"

definition exhausted_message :: "nat \<Rightarrow> string \<Rightarrow> string" where
  "exhausted_message maxRetries m =
     ''Failed to generate PDF after '' @ show_nat (int maxRetries) @ '' attempts: '' @ m"

text \<open>
  The \<open>while\<close> loop of \<open>generatePDF\<close>. In the \<open>catch\<close> block the counter is incremented;
  the error is thrown when it equals \<open>maxRetries\<close>, otherwise two seconds are waited; the
  \<open>finally\<close> block runs after either. When the loop condition fails the function ends
  without a \<open>return\<close>.
\<close>

function generatePDF_loop ::
  "(nat \<Rightarrow> attempt) \<Rightarrow> nat \<Rightarrow> nat \<Rightarrow> nat option \<Rightarrow> render_result \<times> effect list" where
  "generatePDF_loop env maxRetries retryCount browser =
     (if retryCount < maxRetries then
        (let a = env retryCount;
             browser' = browser_after a retryCount browser
         in case attempt_outcome a of
              Inr pdfBuffer \<Rightarrow>
                (Rendered pdfBuffer, launch_effects a retryCount @ finally_close browser')
            | Inl m \<Rightarrow>
                if retryCount + 1 = maxRetries then
                  (RenderThrew (exhausted_message maxRetries m),
                   launch_effects a retryCount @ [LoggedFailure (retryCount + 1)]
                     @ finally_close browser')
                else
                  (let (r, es) = generatePDF_loop env maxRetries (retryCount + 1) browser'
                   in (r, launch_effects a retryCount
                            @ [LoggedFailure (retryCount + 1), Waited 2000]
                            @ finally_close browser' @ es)))
      else (RenderUndefined, []))"
  by pat_completeness auto
termination
  by (relation "measure (\<lambda>(env, maxRetries, retryCount, browser). maxRetries - retryCount)") auto

declare generatePDF_loop.simps [simp del]

definition generatePDF :: "(nat \<Rightarrow> attempt) \<Rightarrow> nat \<Rightarrow> render_result \<times> effect list" where
  "generatePDF env maxRetries = generatePDF_loop env maxRetries 0 None"

text \<open>The default value of the parameter \<open>maxRetries\<close>.\<close>

definition default_maxRetries :: nat where
  "default_maxRetries = 3"

section \<open>Printing on the host\<close>

definition dquote :: string where
  "dquote = [char_of (34 :: nat)]"

text \<open>
  \<open>path.join(os.tmpdir(), `temp-print-${Date.now()}.pdf`)\<close>. Joining and normalizing a
  path is the work of the platform's \<open>path\<close> module: \<open>path_join h dir name\<close> is what
  \<open>path.join(dir, name)\<close> returns on the host.
\<close>

definition temp_file :: "host \<Rightarrow> string" where
  "temp_file h = path_join h (tmpdir h) (''temp-print-'' @ show_int (now h) @ ''.pdf'')"

definition lp_command :: "string \<Rightarrow> string \<Rightarrow> string" where
  "lp_command printerName tempFile =
     ''lp -d '' @ dquote @ printerName @ dquote @ '' '' @ dquote @ tempFile @ dquote"

definition powershell_command :: "string \<Rightarrow> string" where
  "powershell_command tempFile =
     ''powershell -Command '' @ dquote @ ''Start-Process -FilePath '' @ [char_of (39 :: nat)]
       @ tempFile @ [char_of (39 :: nat)] @ '' -Verb Print -PassThru | Out-Null'' @ dquote"

text \<open>
  \<open>fs.writeFileSync(tempFile, pdfBuffer)\<close> throws when the host refuses the write, and
  when \<open>pdfBuffer\<close> is \<open>undefined\<close> (a \<open>TypeError\<close>).
\<close>

definition write_outcome :: "host \<Rightarrow> buffer option \<Rightarrow> string + buffer" where
  "write_outcome h pdfBuffer =
     (case pdfBuffer of
        None \<Rightarrow>
          Inl (''The '' @ dquote @ ''data'' @ dquote
               @ '' argument must be of type string or an instance of Buffer, TypedArray, or DataView. Received undefined'')
      | Some b \<Rightarrow> (case write_error h of Some m \<Rightarrow> Inl m | None \<Rightarrow> Inr b))"

text \<open>
  The part of \<open>printPDFBuffer\<close> (host variant) from \<open>execAsync(command)\<close> on. A rejected
  \<open>execAsync\<close> leaves the \<open>try\<close> block for the \<open>catch\<close> block at once.
\<close>

definition run_print_command ::
  "host \<Rightarrow> string set \<Rightarrow> string \<Rightarrow> string \<Rightarrow> print_result \<times> effect list \<times> string set" where
  "run_print_command h files tempFile command =
     (case exec h command of
        ExecRejects m \<Rightarrow> (failed (''Printing error: '' @ m), [Executed command], files)
      | ExecResolves stdout stderr \<Rightarrow>
          (let (cleanup, files') =
                 (case unlink_error h of
                    None \<Rightarrow> ([Unlinked tempFile], files - {tempFile})
                  | Some m \<Rightarrow> ([UnlinkFailed tempFile], files))
           in if stderr \<noteq> [] then
                (failed (''Printing error: '' @ stderr), Executed command # cleanup, files')
              else (submitted None, Executed command # cleanup, files')))"

text \<open>
  \<open>printPDFBuffer(pdfBuffer, printerName)\<close>, host variant: the result, the effects and
  the files that exist afterwards.
\<close>

definition printPDFBuffer ::
  "host \<Rightarrow> string set \<Rightarrow> buffer option \<Rightarrow> jsval \<Rightarrow> print_result \<times> effect list \<times> string set" where
  "printPDFBuffer h files pdfBuffer printerName =
     (if \<not> tmp_exists h then
        (failed ''Printing is not supported in serverless environment.'', [], files)
      else
        (let tempFile = temp_file h
         in case write_outcome h pdfBuffer of
              Inl m \<Rightarrow> (failed (''Printing error: '' @ m), [], files)
            | Inr b \<Rightarrow>
                (let files' = insert tempFile files;
                     run = (\<lambda>command.
                              let (r, es, fs) = run_print_command h files' tempFile command
                              in (r, WroteFile tempFile b # es, fs))
                 in if platform h = ''darwin'' \<or> platform h = ''linux'' then
                      run (lp_command (to_string printerName) tempFile)
                    else if platform h = ''win32'' then run (powershell_command tempFile)
                    else (failed (''Unsupported platform: '' @ platform h),
                          [WroteFile tempFile b], files'))))"

text \<open>
  The message of the serverless guard in \<open>printPDF(filePath, printerName)\<close>, the variant
  that prints a file already on disk.
\<close>

definition printPDF_serverless_message :: string where
  "printPDF_serverless_message =
     ''Printing is not supported in serverless environment. Please download the PDF and print locally.''"

section \<open>Printing through the print service\<close>

definition PRINTNODE_API_KEY :: string where
  "PRINTNODE_API_KEY = ''rewYAYdtAjYhpk5GkwQclkG3nLViC9dulNDb3Mo3WE8''"

definition PRINTNODE_API_URL :: string where
  "PRINTNODE_API_URL = ''https://api.printnode.com''"

text \<open>
  \<open>printPDFBuffer(pdfBuffer, printerId)\<close>, print-service variant. The request carries the
  URL, the \<open>Authorization\<close> header and the job. An error's message is the service's own
  message when the response has a non-empty one, the transport's message otherwise.
\<close>

definition printPDFBuffer_service ::
  "host \<Rightarrow> buffer \<Rightarrow> jsval \<Rightarrow> print_result \<times> effect list" where
  "printPDFBuffer_service h pdfBuffer printerId =
     (if PRINTNODE_API_KEY = [] then
        (failed (''Printing error: '' @ ''PrintNode API key is not configured''), [])
      else
        (let printJob =
               \<lparr>job_printerId = printerId,
                job_title = ''Invoice-'' @ show_int (now h),
                job_contentType = ''pdf_base64'',
                job_content = base64 h pdfBuffer,
                job_source = ''Invoice Generator'',
                job_media = ''Custom.80x297mm'',
                job_n = 1\<rparr>;
             url = PRINTNODE_API_URL @ ''/printjobs'';
             authorization = ''Basic '' @ base64 h (PRINTNODE_API_KEY @ '':'')
         in case http_post h url authorization printJob of
              HttpOk job \<Rightarrow> (submitted (Some job), [HttpPost url])
            | HttpFails remote m \<Rightarrow>
                (failed (''Printing error: '' @
                   (case remote of
                      Some rm \<Rightarrow> if rm \<noteq> [] then rm else m
                    | None \<Rightarrow> m)),
                 [HttpPost url])))"

section \<open>The handlers of \<open>POST /api/printing\<close>\<close>

record request_body =
  invoiceId :: jsval
  customerName :: jsval
  items :: "item list option"
  status :: jsval
  printName :: jsval
  printerId :: jsval

text \<open>
  The two JSON bodies a handler sends: \<open>{success: true, printResult, message}\<close> with the
  default status 200, and \<open>{success: false, error}\<close> with status 500.
\<close>

record response =
  http_status :: int
  success :: bool
  printResult :: "print_result option"
  message :: "string option"
  error :: "string option"

definition ok_response :: "print_result option \<Rightarrow> response" where
  "ok_response r =
     \<lparr>http_status = 200, success = True, printResult = r,
      message = Some (case r of
                        None \<Rightarrow> ''PDF generated successfully''
                      | Some pr \<Rightarrow>
                          if pr_message pr \<noteq> [] then pr_message pr
                          else ''PDF generated successfully''),
      error = None\<rparr>"

definition error_response :: "string \<Rightarrow> response" where
  "error_response m =
     \<lparr>http_status = 500, success = False, printResult = None, message = None, error = Some m\<rparr>"

text \<open>\<open>items.map(...)\<close> on a body without \<open>items\<close> throws this \<open>TypeError\<close>.\<close>

definition map_of_undefined :: string where
  "map_of_undefined = ''Cannot read properties of undefined (reading '' @ [char_of (39 :: nat)]
     @ ''map'' @ [char_of (39 :: nat)] @ '')''"

definition templateData :: "host \<Rightarrow> request_body \<Rightarrow> item list \<Rightarrow> template_data" where
  "templateData h body its =
     \<lparr>td_invoiceId = invoiceId body,
      td_customerName = customerName body,
      td_items = itemsWithSubtotals its,
      td_total = calculatedTotal (itemsWithSubtotals its),
      td_date = today h\<rparr>"

text \<open>
  The handler of the host-printing variant: template renderer with the default number
  of attempts, then \<open>printPDFBuffer\<close> if \<open>status\<close> is truthy. The result is the response,
  the effects and the files that exist afterwards.
\<close>

definition post_printing_host ::
  "host \<Rightarrow> string set \<Rightarrow> request_body \<Rightarrow> response \<times> effect list \<times> string set" where
  "post_printing_host h files body =
     (case items body of
        None \<Rightarrow> (error_response map_of_undefined, [], files)
      | Some its \<Rightarrow>
          (let (rendered, es) = generatePDF (attempts h (templateData h body its)) default_maxRetries
           in case rendered of
                RenderThrew m \<Rightarrow> (error_response m, es, files)
              | _ \<Rightarrow>
                  (let pdfBuffer = (case rendered of Rendered b \<Rightarrow> Some b | _ \<Rightarrow> None)
                   in if truthy (status body) then
                        (let (r, es', files') = printPDFBuffer h files pdfBuffer (printName body)
                         in (ok_response (Some r), es @ es', files'))
                      else (ok_response None, es, files))))"

text \<open>
  The handler of the print-service variant: the direct PDF composer, then the print
  service if \<open>printerId\<close> is truthy.
\<close>

definition post_printing_service ::
  "host \<Rightarrow> request_body \<Rightarrow> response \<times> effect list" where
  "post_printing_service h body =
     (case items body of
        None \<Rightarrow> (error_response map_of_undefined, [])
      | Some its \<Rightarrow>
          (case pdfkit h (templateData h body its) of
             Inl m \<Rightarrow> (error_response m, [])
           | Inr pdfBuffer \<Rightarrow>
               if truthy (printerId body) then
                 (let (r, es) = printPDFBuffer_service h pdfBuffer (printerId body)
                  in (ok_response (Some r), es))
               else (ok_response None, [])))"

section \<open>Reading a list of effects\<close>

fun is_failure_log :: "effect \<Rightarrow> bool" where
  "is_failure_log (LoggedFailure k) = True"
| "is_failure_log _ = False"

fun is_wait :: "effect \<Rightarrow> bool" where
  "is_wait (Waited d) = True"
| "is_wait _ = False"

text \<open>Every browser launched is closed later on.\<close>

fun released :: "effect list \<Rightarrow> bool" where
  "released [] = True"
| "released (Launched i # es) = (Closed i \<in> set es \<and> released es)"
| "released (e # es) = released es"

text \<open>
  Reading a trace for browsers left running. \<open>Launched i\<close> is the browser launched by
  attempt number \<open>i\<close>, and \<open>LoggedFailure k\<close> is logged in the \<open>catch\<close> block of attempt
  number \<open>k - 1\<close>. \<open>closed_each_attempt cur es\<close> holds when, along \<open>es\<close> and starting with
  the browser \<open>cur\<close> running (if any), a browser is launched only while none is running,
  a browser that runs while a failure is logged was launched by the attempt that logs
  it, and none is running at the end. Closing a browser that is not running changes
  nothing.
\<close>

fun closed_each_attempt :: "nat option \<Rightarrow> effect list \<Rightarrow> bool" where
  "closed_each_attempt cur [] = (cur = None)"
| "closed_each_attempt cur (Launched i # es) = (cur = None \<and> closed_each_attempt (Some i) es)"
| "closed_each_attempt cur (Closed i # es) =
     closed_each_attempt (if cur = Some i then None else cur) es"
| "closed_each_attempt cur (LoggedFailure k # es) =
     ((cur = None \<or> cur = Some (k - 1)) \<and> closed_each_attempt cur es)"
| "closed_each_attempt cur (e # es) = closed_each_attempt cur es"

fun is_close :: "effect \<Rightarrow> bool" where
  "is_close (Closed b) = True"
| "is_close _ = False"

text \<open>
  What a failed attempt that is followed by another one leaves in the trace, the closing
  of browsers apart: the launch, if the browser launched, the failure log and the wait
  of two seconds.
\<close>

definition attempt_events :: "(nat \<Rightarrow> attempt) \<Rightarrow> nat \<Rightarrow> effect list" where
  "attempt_events env i =
     (if launches (env i) then [Launched i] else []) @ [LoggedFailure (i + 1), Waited 2000]"

text \<open>The first attempt among \<open>c, \<dots>, n - 1\<close> that produces the PDF, if there is one.\<close>

definition first_success :: "(nat \<Rightarrow> attempt) \<Rightarrow> nat \<Rightarrow> nat \<Rightarrow> nat option" where
  "first_success env c n = find (\<lambda>i. \<not> isl (attempt_outcome (env i))) [c..<n]"

section \<open>Reading a message\<close>

text \<open>\<open>contains w s\<close>: the string \<open>w\<close> occurs in \<open>s\<close>.\<close>

fun contains :: "string \<Rightarrow> string \<Rightarrow> bool" where
  "contains w [] = (w = [])"
| "contains w (c # cs) = (take (length w) (c # cs) = w \<or> contains w cs)"

text \<open>
  The advice of \<open>printPDF\<close>'s serverless guard, to fetch the document and print it
  elsewhere.
\<close>

definition advises_download :: "string \<Rightarrow> bool" where
  "advises_download m = contains ''Please download the PDF'' m"

section \<open>Example inputs\<close>

text \<open>
  A Linux host with \<open>/tmp\<close> on which the print command exits with an error, the renderers
  succeed and the print service cannot be reached. Its \<open>path.join\<close> is asked for
  the directory \<open>/tmp\<close> and a plain file name only, where it puts a slash between the
  two.
\<close>

definition example_host :: host where
  "example_host =
     \<lparr>tmp_exists = True, platform = ''linux'', tmpdir = ''/tmp'',
      path_join = (\<lambda>dir name. dir @ ''/'' @ name), now = 1700000000000,
      today = ''11/2/2026'', write_error = None,
      exec = (\<lambda>command. ExecRejects ''Command failed: lp''),
      unlink_error = None,
      attempts = (\<lambda>td i. PdfReady ''%PDF''),
      pdfkit = (\<lambda>td. Inr ''%PDF''),
      base64 = (\<lambda>b. b),
      http_post = (\<lambda>url authorization job. HttpFails None ''connect ETIMEDOUT'')\<rparr>"

definition example_body :: request_body where
  "example_body =
     \<lparr>invoiceId = Str ''INV-1'', customerName = Str ''Ann'', items = Some [],
      status = Bool True, printName = Str ''HP'', printerId = Undefined\<rparr>"

section \<open>Amounts in cents\<close>

text \<open>
  The number of cents that \<open>toFixed(2)\<close> prints for a finite \<open>x\<close>: the nearest integer to
  \<open>100 \<times> |x|\<close>, the larger one on a tie, with the sign of \<open>x\<close>.
\<close>

definition to_cents :: "rat \<Rightarrow> int" where
  "to_cents x = (if x < 0 then - \<lfloor>- x * 100 + 1 / 2\<rfloor> else \<lfloor>x * 100 + 1 / 2\<rfloor>)"

text \<open>The two-decimal numeral of an amount in cents.\<close>

definition fixed2 :: "int \<Rightarrow> string" where
  "fixed2 c = (if c < 0 then CHR ''-'' # fixed2_digits (- c) else fixed2_digits c)"

text \<open>
  \<open>shows_cents s c\<close>: the string \<open>s\<close> is the two-decimal numeral of \<open>c\<close> cents. Zero cents
  also print as \<open>-0.00\<close>: that is what \<open>toFixed(2)\<close> gives for a negative number that
  rounds to zero.
\<close>

definition shows_cents :: "string \<Rightarrow> int \<Rightarrow> bool" where
  "shows_cents s c = (s = fixed2 c \<or> (c = 0 \<and> s = ''-0.00''))"

text \<open>
  A two-decimal numeral: an optional minus sign, at least one digit, a point and two
  digits.
\<close>

definition two_decimals :: "string \<Rightarrow> bool" where
  "two_decimals s =
     (let t = (if take 1 s = ''-'' then drop 1 s else s);
          ip = takeWhile is_digit t;
          r = dropWhile is_digit t
      in ip \<noteq> [] \<and> length r = 3 \<and> take 1 r = ''.'' \<and> list_all is_digit (drop 1 r))"

text \<open>The cents shown in the \<open>subtotal\<close> field of an item, when its subtotal is finite.\<close>

definition subtotal_cents :: "item \<Rightarrow> int" where
  "subtotal_cents it = (case item_subtotal it of Fin x \<Rightarrow> to_cents x | _ \<Rightarrow> 0)"

section \<open>Example items\<close>

definition widget :: item where
  "widget = [''name'' \<mapsto> Str ''Widget'', ''price'' \<mapsto> Str ''$10.00'', ''quantity'' \<mapsto> Str ''2'']"

definition gadget :: item where
  "gadget = [''name'' \<mapsto> Str ''Gadget'', ''price'' \<mapsto> Num (Fin 5), ''quantity'' \<mapsto> Str ''3'']"

definition mainframe :: item where
  "mainframe = [''name'' \<mapsto> Str ''Mainframe'', ''price'' \<mapsto> Str ''9007199254740992'', ''quantity'' \<mapsto> Str ''1'']"

definition cable :: item where
  "cable = [''name'' \<mapsto> Str ''Cable'', ''price'' \<mapsto> Str ''1'', ''quantity'' \<mapsto> Str ''1'']"

definition unpriced :: item where
  "unpriced = [''name'' \<mapsto> Str ''Widget'', ''price'' \<mapsto> Str ''abc'', ''quantity'' \<mapsto> Str ''2'']"

definition returned :: item where
  "returned = [''name'' \<mapsto> Str ''Widget'', ''price'' \<mapsto> Str ''4.50'', ''quantity'' \<mapsto> Str ''-3'']"

definition gift :: item where
  "gift = [''name'' \<mapsto> Str ''Gift'', ''quantity'' \<mapsto> Str ''abc'']"

definition bulk :: item where
  "bulk = [''name'' \<mapsto> Str ''Bulk'', ''price'' \<mapsto> Num (Fin 1000000000000000000000),
           ''quantity'' \<mapsto> Str ''1'']"

definition crate :: item where
  "crate = [''name'' \<mapsto> Str ''Crate'', ''price'' \<mapsto> Num (Fin 0),
            ''quantity'' \<mapsto> Str ''1000000000000000000000'']"

definition loose :: item where
  "loose = [''name'' \<mapsto> Str ''Loose'', ''price'' \<mapsto> Str ''USD 1,234.50'',
            ''quantity'' \<mapsto> Str ''2.7 kg'']"

chapter \<open>Verified properties\<close>

section \<open>The number model on known values\<close>

text \<open>
  Values that JavaScript is known to produce, computed in the model: the double nearest
  to one tenth, ties going to the even significand, and the formatting and parsing
  functions on inputs with familiar results.
\<close>

lemma rnd_one_tenth: "rnd (1 / 10) = Fin (3602879701896397 / 36028797018963968)"
  by code_simp

lemma rnd_ties_to_even:
  "rnd 9007199254740993 = Fin 9007199254740992" "rnd 9007199254740995 = Fin 9007199254740996"
  by code_simp+

lemma toFixed2_examples:
  "toFixed2 (parseFloat_str ''1.005'') = ''1.00''"
  "toFixed2 (parseFloat_str ''0.125'') = ''0.13''"
  "toFixed2 (parseFloat_str ''-0.001'') = ''-0.00''"
  "toFixed2 (parseFloat_str ''1e21'') = ''1e+21''"
  by code_simp+

lemma num_toString_examples:
  "num_toString (parseFloat_str ''-2.50'') = ''-2.5''"
  "num_toString (parseFloat_str ''0.1'') = ''0.1''"
  "num_toString (parseFloat_str ''1234.5'') = ''1234.5''"
  "num_toString (parseFloat_str ''0.0000001'') = ''1e-7''"
  "num_toString (parseFloat_str ''1000000000000000000000'') = ''1e+21''"
  by code_simp+

lemma parseFloat_str_examples:
  "parseFloat_str ''  12.5px'' = Fin (25 / 2)" "parseFloat_str ''.5e1'' = Fin 5"
  "parseFloat_str ''-Infinity'' = NInf" "parseFloat_str ''1.2.3'' = parseFloat_str ''1.2''"
  "parseFloat_str ''--5'' = NaN" "parseFloat_str [] = NaN"
  by code_simp+

lemma parseInt_str_examples:
  "parseInt_str '' 42abc'' = Fin 42" "parseInt_str ''12.7'' = Fin 12"
  "parseInt_str ''0x1A'' = Fin 26" "parseInt_str ''-7'' = Fin (- 7)"
  "parseInt_str ''abc'' = NaN" "parseInt_str ''1e5'' = Fin 1"
  by code_simp+

section \<open>Decimal numerals\<close>

text \<open>The numeral of a non-negative integer consists of digits and has its value.\<close>

lemma digit_char_props:
  assumes "0 \<le> d" "d < 10"
  shows "is_digit (digit_char d)" and "digit_val (digit_char d) = d"
proof -
  have "(of_char (char_of (48 + d)) :: int) = (48 + d) mod 256" by (simp add: of_char_of)
  also have "\<dots> = 48 + d" using assms by simp
  finally have e: "(of_char (digit_char d) :: int) = 48 + d" by (simp add: digit_char_def)
  show "is_digit (digit_char d)" using e assms by (simp add: is_digit_def)
  show "digit_val (digit_char d) = d" using e by (simp add: digit_val_def)
qed

lemma dec_value_snoc: "dec_value (ds @ [c]) = 10 * dec_value ds + digit_val c"
  by (simp add: dec_value_def)

lemma show_nat_props:
  "0 \<le> n \<Longrightarrow> show_nat n \<noteq> [] \<and> (\<forall>c \<in> set (show_nat n). is_digit c) \<and> dec_value (show_nat n) = n"
proof (induction n rule: show_nat.induct)
  case (1 n)
  show ?case
  proof (cases "n < 10")
    case True
    then have "show_nat n = [digit_char n]" by (subst show_nat.simps) simp
    then show ?thesis using digit_char_props[of n] 1(2) True by (simp add: dec_value_def)
  next
    case False
    then have s: "show_nat n = show_nat (n div 10) @ [digit_char (n mod 10)]"
      by (subst show_nat.simps) simp
    have ih: "show_nat (n div 10) \<noteq> [] \<and> (\<forall>c \<in> set (show_nat (n div 10)). is_digit c)
        \<and> dec_value (show_nat (n div 10)) = n div 10"
      using 1(1)[OF False] 1(2) by (simp add: pos_imp_zdiv_nonneg_iff)
    have d: "is_digit (digit_char (n mod 10))" "digit_val (digit_char (n mod 10)) = n mod 10"
      using digit_char_props[of "n mod 10"] by simp_all
    show ?thesis using ih d by (simp add: s dec_value_snoc)
  qed
qed

section \<open>The retry loop of the template renderer\<close>

lemma released_append: "released xs \<Longrightarrow> released ys \<Longrightarrow> released (xs @ ys)"
  by (induction xs rule: released.induct) auto

lemma released_attempt:
  "released (launch_effects a i @ LoggedFailure k # finally_close (browser_after a i b))"
  "released (launch_effects a i @ LoggedFailure k # Waited d # finally_close (browser_after a i b))"
  "released (launch_effects a i @ finally_close (browser_after a i b))"
  by (auto simp: launch_effects_def finally_close_def browser_after_def split: option.splits)

lemma filter_attempt_effects:
  "filter is_failure_log (launch_effects a i) = []"
  "filter is_failure_log (finally_close b) = []"
  "filter is_wait (launch_effects a i) = []"
  "filter is_wait (finally_close b) = []"
  by (auto simp: launch_effects_def finally_close_def split: option.splits)

lemma first_success_step:
  "c < n \<Longrightarrow> first_success env c n =
     (if isl (attempt_outcome (env c)) then first_success env (Suc c) n else Some c)"
  by (simp add: first_success_def upt_conv_Cons)

text \<open>
  The loop entered with counter \<open>c < n\<close>: it returns the buffer of the first successful
  attempt \<open>j\<close> after logging the failures \<open>c + 1, \<dots>, j\<close> and waiting after each of them, or
  throws after logging the failures \<open>c + 1, \<dots>, n\<close> and waiting after all but the last.
\<close>

lemma generatePDF_loop_spec:
  "c < n \<Longrightarrow>
   (case generatePDF_loop env n c b of (r, es) \<Rightarrow>
     (case first_success env c n of
        Some j \<Rightarrow>
          (case attempt_outcome (env j) of Inr pdfBuffer \<Rightarrow> r = Rendered pdfBuffer | Inl m \<Rightarrow> False)
          \<and> filter is_failure_log es = map LoggedFailure [c + 1..<j + 1]
          \<and> filter is_wait es = replicate (j - c) (Waited 2000)
      | None \<Rightarrow>
          (case attempt_outcome (env (n - 1)) of
             Inl m \<Rightarrow> r = RenderThrew (exhausted_message n m) | Inr pdfBuffer \<Rightarrow> False)
          \<and> filter is_failure_log es = map LoggedFailure [c + 1..<n + 1]
          \<and> filter is_wait es = replicate (n - 1 - c) (Waited 2000))
     \<and> released es)"
proof (induction env n c b rule: generatePDF_loop.induct)
  case (1 env maxRetries retryCount browser)
  let ?a = "env retryCount"
  let ?b = "browser_after ?a retryCount browser"
  from "1.prems" have lt: "retryCount < maxRetries" .
  show ?case
  proof (cases "attempt_outcome ?a")
    case (Inr pdfBuffer)
    then have fs: "first_success env retryCount maxRetries = Some retryCount"
      using lt by (simp add: first_success_step)
    show ?thesis
      using lt Inr fs
      by (subst generatePDF_loop.simps)
         (simp add: Let_def filter_attempt_effects released_attempt)
  next
    case (Inl m)
    then have fs: "first_success env retryCount maxRetries
        = first_success env (Suc retryCount) maxRetries"
      using lt by (simp add: first_success_step)
    show ?thesis
    proof (cases "retryCount + 1 = maxRetries")
      case True
      from True have mr: "maxRetries = Suc retryCount" by simp
      show ?thesis
        using Inl unfolding mr
        by (subst generatePDF_loop.simps)
           (simp add: Let_def first_success_step first_success_def filter_attempt_effects
              released_attempt)
    next
      case False
      with lt have lt': "retryCount + 1 < maxRetries" by simp
      obtain r es where rec: "generatePDF_loop env maxRetries (retryCount + 1) ?b = (r, es)"
        by (cases "generatePDF_loop env maxRetries (retryCount + 1) ?b")
      have ih: "(case first_success env (retryCount + 1) maxRetries of
            Some j \<Rightarrow>
              (case attempt_outcome (env j) of
                 Inr pdfBuffer \<Rightarrow> r = Rendered pdfBuffer | Inl m \<Rightarrow> False)
              \<and> filter is_failure_log es = map LoggedFailure [retryCount + 1 + 1..<j + 1]
              \<and> filter is_wait es = replicate (j - (retryCount + 1)) (Waited 2000)
          | None \<Rightarrow>
              (case attempt_outcome (env (maxRetries - 1)) of
                 Inl m \<Rightarrow> r = RenderThrew (exhausted_message maxRetries m)
               | Inr pdfBuffer \<Rightarrow> False)
              \<and> filter is_failure_log es = map LoggedFailure [retryCount + 1 + 1..<maxRetries + 1]
              \<and> filter is_wait es = replicate (maxRetries - 1 - (retryCount + 1)) (Waited 2000))
         \<and> released es"
        using "1.IH"[OF lt refl refl Inl False lt'] rec by simp
      have cur: "generatePDF_loop env maxRetries retryCount browser =
          (r, launch_effects ?a retryCount @ [LoggedFailure (retryCount + 1), Waited 2000]
                @ finally_close ?b @ es)"
        using lt Inl False rec
        by (subst generatePDF_loop.simps) (simp add: Let_def)
      have rel: "released (launch_effects ?a retryCount
                @ [LoggedFailure (retryCount + 1), Waited 2000] @ finally_close ?b @ es)"
        using released_append[OF released_attempt(2)[of ?a retryCount "retryCount + 1" 2000 browser]
                conjunct2[OF ih]]
        by simp
      show ?thesis
      proof (cases "first_success env (retryCount + 1) maxRetries")
        case None
        have "[retryCount + 1..<maxRetries + 1]
            = (retryCount + 1) # [retryCount + 1 + 1..<maxRetries + 1]"
          using lt' by (simp add: upt_conv_Cons)
        moreover have "replicate (maxRetries - 1 - retryCount) (Waited 2000)
            = Waited 2000 # replicate (maxRetries - 1 - (retryCount + 1)) (Waited 2000)"
          using lt' by (cases "maxRetries - 1 - retryCount") auto
        ultimately show ?thesis
          using ih None fs rel by (simp add: cur filter_attempt_effects)
      next
        case (Some j)
        then have "retryCount + 1 \<le> j"
          by (auto simp: first_success_def find_Some_iff)
        then have "[retryCount + 1..<j + 1] = (retryCount + 1) # [retryCount + 1 + 1..<j + 1]"
          and "replicate (j - retryCount) (Waited 2000)
            = Waited 2000 # replicate (j - (retryCount + 1)) (Waited (2000::int))"
          by (simp_all add: upt_conv_Cons Suc_diff_le flip: replicate_Suc)
        then show ?thesis
          using ih Some fs rel by (simp add: cur filter_attempt_effects)
      qed
    qed
  qed
qed

text \<open>
  Between two attempts no browser is left running: the \<open>finally\<close> block closes the one
  the attempt launched before the loop goes on, returns or throws.
\<close>

lemma closed_each_attempt_step:
  "closed_each_attempt None
     (launch_effects a c @ LoggedFailure (Suc c) # Waited 2000 # finally_close (browser_after a c b) @ es)
   = closed_each_attempt None es"
  "closed_each_attempt None
     (launch_effects a c @ LoggedFailure (Suc c) # finally_close (browser_after a c b))"
  "launches a \<Longrightarrow> closed_each_attempt None (launch_effects a c @ finally_close (browser_after a c b))"
  by (auto simp: launch_effects_def finally_close_def browser_after_def split: option.splits)

lemma outcome_launches: "attempt_outcome a = Inr p \<Longrightarrow> launches a"
  by (cases a) auto

lemma generatePDF_loop_closed:
  "c < n \<Longrightarrow> closed_each_attempt None (snd (generatePDF_loop env n c b))"
proof (induction env n c b rule: generatePDF_loop.induct)
  case (1 env maxRetries retryCount browser)
  let ?a = "env retryCount"
  let ?b = "browser_after ?a retryCount browser"
  from "1.prems" have lt: "retryCount < maxRetries" .
  show ?case
  proof (cases "attempt_outcome ?a")
    case (Inr pdfBuffer)
    then show ?thesis
      using lt outcome_launches[OF Inr]
      by (subst generatePDF_loop.simps) (simp add: Let_def closed_each_attempt_step)
  next
    case (Inl m)
    show ?thesis
    proof (cases "retryCount + 1 = maxRetries")
      case True
      from True have mr: "maxRetries = Suc retryCount" by simp
      show ?thesis
        using Inl unfolding mr
        by (subst generatePDF_loop.simps) (simp add: Let_def closed_each_attempt_step)
    next
      case False
      with lt have lt': "retryCount + 1 < maxRetries" by simp
      have ih: "closed_each_attempt None (snd (generatePDF_loop env maxRetries (retryCount + 1) ?b))"
        using "1.IH"[OF lt refl refl Inl False lt'] .
      show ?thesis
        using lt Inl False ih
        by (subst generatePDF_loop.simps)
           (auto simp: Let_def closed_each_attempt_step split: prod.splits)
    qed
  qed
qed

lemma filter_not_close:
  "filter (\<lambda>e. \<not> is_close e) (launch_effects a i) = (if launches a then [Launched i] else [])"
  "filter (\<lambda>e. \<not> is_close e) (finally_close b) = []"
  by (auto simp: launch_effects_def finally_close_def split: option.splits)

lemma generatePDF_loop_order:
  "c < n \<Longrightarrow>
   filter (\<lambda>e. \<not> is_close e) (snd (generatePDF_loop env n c b)) =
     (case first_success env c n of
        Some j \<Rightarrow> concat (map (attempt_events env) [c..<j]) @ [Launched j]
      | None \<Rightarrow> concat (map (attempt_events env) [c..<n - 1])
                 @ (if launches (env (n - 1)) then [Launched (n - 1)] else [])
                 @ [LoggedFailure n])"
proof (induction env n c b rule: generatePDF_loop.induct)
  case (1 env maxRetries retryCount browser)
  let ?a = "env retryCount"
  let ?b = "browser_after ?a retryCount browser"
  from "1.prems" have lt: "retryCount < maxRetries" .
  show ?case
  proof (cases "attempt_outcome ?a")
    case (Inr pdfBuffer)
    then have fs: "first_success env retryCount maxRetries = Some retryCount"
      using lt by (simp add: first_success_step)
    show ?thesis
      using lt Inr fs outcome_launches[OF Inr]
      by (subst generatePDF_loop.simps) (simp add: Let_def filter_not_close)
  next
    case (Inl m)
    then have fs: "first_success env retryCount maxRetries
        = first_success env (Suc retryCount) maxRetries"
      using lt by (simp add: first_success_step)
    show ?thesis
    proof (cases "retryCount + 1 = maxRetries")
      case True
      from True have mr: "maxRetries = Suc retryCount" by simp
      show ?thesis
        using Inl unfolding mr
        by (subst generatePDF_loop.simps)
           (simp add: Let_def first_success_step first_success_def filter_not_close)
    next
      case False
      with lt have lt': "retryCount + 1 < maxRetries" by simp
      obtain r es where rec: "generatePDF_loop env maxRetries (retryCount + 1) ?b = (r, es)"
        by (cases "generatePDF_loop env maxRetries (retryCount + 1) ?b")
      have ih: "filter (\<lambda>e. \<not> is_close e) es =
         (case first_success env (retryCount + 1) maxRetries of
            Some j \<Rightarrow> concat (map (attempt_events env) [retryCount + 1..<j]) @ [Launched j]
          | None \<Rightarrow> concat (map (attempt_events env) [retryCount + 1..<maxRetries - 1])
                 @ (if launches (env (maxRetries - 1)) then [Launched (maxRetries - 1)] else [])
                 @ [LoggedFailure maxRetries])"
        using "1.IH"[OF lt refl refl Inl False lt'] rec by simp
      have cur: "snd (generatePDF_loop env maxRetries retryCount browser) =
          launch_effects ?a retryCount @ [LoggedFailure (retryCount + 1), Waited 2000]
                @ finally_close ?b @ es"
        using lt Inl False rec
        by (subst generatePDF_loop.simps) (simp add: Let_def)
      have fl: "filter (\<lambda>e. \<not> is_close e) (snd (generatePDF_loop env maxRetries retryCount browser))
          = attempt_events env retryCount @ filter (\<lambda>e. \<not> is_close e) es"
        unfolding cur by (simp add: filter_not_close attempt_events_def)
      show ?thesis
      proof (cases "first_success env (retryCount + 1) maxRetries")
        case None
        have "[retryCount..<maxRetries - 1] = retryCount # [retryCount + 1..<maxRetries - 1]"
          using lt' by (simp add: upt_conv_Cons)
        then show ?thesis
          using ih None fs unfolding fl by simp
      next
        case (Some j)
        then have "retryCount + 1 \<le> j"
          by (auto simp: first_success_def find_Some_iff)
        then have "[retryCount..<j] = retryCount # [retryCount + 1..<j]"
          by (simp add: upt_conv_Cons)
        then show ?thesis
          using ih Some fs unfolding fl by simp
      qed
    qed
  qed
qed

text \<open>
  C3. With a positive maximum of attempts (3 by default), \<open>generatePDF\<close> runs the attempts
  in order and returns the buffer of the first one that succeeds: each attempt before it
  is logged as failed and followed by a wait of 2000 ms. If none of the \<open>maxRetries\<close>
  attempts succeeds it throws the error "Failed to generate PDF after \<open>maxRetries\<close>
  attempts: " followed by the last attempt's message, the count written as a decimal
  numeral, after \<open>maxRetries\<close> logged failures with a wait of 2000 ms after each but the
  last. In both cases the trace without the closings is exactly the launches, failure
  logs and waits of the attempts in order, every browser launched is closed, and it is
  closed before the next attempt starts and before the function returns or throws.
\<close>

theorem generatePDF_retry_contract:
  assumes "0 < maxRetries"
  shows "(case generatePDF env maxRetries of (r, es) \<Rightarrow>
     (case first_success env 0 maxRetries of
        Some j \<Rightarrow>
          (case attempt_outcome (env j) of Inr pdfBuffer \<Rightarrow> r = Rendered pdfBuffer | Inl m \<Rightarrow> False)
          \<and> filter is_failure_log es = map LoggedFailure [1..<j + 1]
          \<and> filter is_wait es = replicate j (Waited 2000)
          \<and> filter (\<lambda>e. \<not> is_close e) es
               = concat (map (attempt_events env) [0..<j]) @ [Launched j]
      | None \<Rightarrow>
          (case attempt_outcome (env (maxRetries - 1)) of
             Inl m \<Rightarrow>
               r = RenderThrew (''Failed to generate PDF after '' @ show_nat (int maxRetries)
                                  @ '' attempts: '' @ m)
           | Inr pdfBuffer \<Rightarrow> False)
          \<and> filter is_failure_log es = map LoggedFailure [1..<maxRetries + 1]
          \<and> filter is_wait es = replicate (maxRetries - 1) (Waited 2000)
          \<and> filter (\<lambda>e. \<not> is_close e) es
               = concat (map (attempt_events env) [0..<maxRetries - 1])
                 @ (if launches (env (maxRetries - 1)) then [Launched (maxRetries - 1)] else [])
                 @ [LoggedFailure maxRetries])
     \<and> released es \<and> closed_each_attempt None es)
   \<and> show_nat (int maxRetries) \<noteq> []
   \<and> list_all is_digit (show_nat (int maxRetries))
   \<and> dec_value (show_nat (int maxRetries)) = int maxRetries
   \<and> default_maxRetries = 3"
proof -
  obtain r es where loop: "generatePDF_loop env maxRetries 0 None = (r, es)"
    by (cases "generatePDF_loop env maxRetries 0 None")
  have num: "show_nat (int maxRetries) \<noteq> [] \<and> list_all is_digit (show_nat (int maxRetries))
      \<and> dec_value (show_nat (int maxRetries)) = int maxRetries"
    using show_nat_props[of "int maxRetries"] by (simp add: list_all_iff)
  have cl: "closed_each_attempt None es"
    using generatePDF_loop_closed[OF assms, of env None] loop by simp
  have ord: "filter (\<lambda>e. \<not> is_close e) es =
     (case first_success env 0 maxRetries of
        Some j \<Rightarrow> concat (map (attempt_events env) [0..<j]) @ [Launched j]
      | None \<Rightarrow> concat (map (attempt_events env) [0..<maxRetries - 1])
                 @ (if launches (env (maxRetries - 1)) then [Launched (maxRetries - 1)] else [])
                 @ [LoggedFailure maxRetries])"
    using generatePDF_loop_order[OF assms, of env None] loop by simp
  show ?thesis
    using assms generatePDF_loop_spec[OF assms, of env None] loop num cl ord
    by (auto simp: generatePDF_def default_maxRetries_def exhausted_message_def
          split: option.splits sum.splits)
qed

theorem generatePDF_retry_contract_witness:
  "(0::nat) < 3
   \<and> generatePDF (\<lambda>i. if i = 1 then LaunchFails ''no chrome'' else PageFails ''timeout'') 3
       = (RenderThrew ''Failed to generate PDF after 3 attempts: timeout'',
          [Launched 0, LoggedFailure 1, Waited 2000, Closed 0,
           LoggedFailure 2, Waited 2000, Closed 0,
           Launched 2, LoggedFailure 3, Closed 2])
   \<and> closed_each_attempt None
         [Launched 0, LoggedFailure 1, Waited 2000, Closed 0,
           LoggedFailure 2, Waited 2000, Closed 0,
           Launched 2, LoggedFailure 3, Closed 2]
   \<and> \<not> closed_each_attempt None
         [Launched 0, LoggedFailure 1, Waited 2000,
           LoggedFailure 2, Waited 2000,
           Launched 2, LoggedFailure 3, Closed 0, Closed 0, Closed 2]
   \<and> generatePDF (\<lambda>i. if i = 0 then PageFails ''timeout'' else PdfReady ''%PDF'') 3
       = (Rendered ''%PDF'', [Launched 0, LoggedFailure 1, Waited 2000, Closed 0, Launched 1, Closed 1])
   \<and> (0::nat) < 12
   \<and> fst (generatePDF (\<lambda>i. LaunchFails ''no chrome'') 12)
       = RenderThrew ''Failed to generate PDF after 12 attempts: no chrome''"
proof -
  let ?bad = "\<lambda>i::nat. if i = 1 then LaunchFails ''no chrome'' else PageFails ''timeout''"
  let ?good = "\<lambda>i::nat. if i = 0 then PageFails ''timeout'' else PdfReady ''%PDF''"
  let ?none = "\<lambda>i::nat. LaunchFails ''no chrome''"
  have h: "(0::nat) < 3" by simp
  have h12: "(0::nat) < 12" by simp
  have b: "first_success ?bad 0 3 = None" "attempt_outcome (?bad (3 - 1)) = Inl ''timeout''"
    by code_simp+
  have g: "first_success ?good 0 3 = Some 1" "attempt_outcome (?good 1) = Inr ''%PDF''"
    by code_simp+
  have n: "first_success ?none 0 12 = None" "attempt_outcome (?none (12 - 1)) = Inl ''no chrome''"
    by code_simp+
  have s: "show_nat (int 3) = ''3''" "show_nat (int 12) = ''12''" by code_simp+
  have t: "snd (generatePDF ?bad 3) = [Launched 0, LoggedFailure 1, Waited 2000, Closed 0,
           LoggedFailure 2, Waited 2000, Closed 0, Launched 2, LoggedFailure 3, Closed 2]"
      "snd (generatePDF ?good 3)
         = [Launched 0, LoggedFailure 1, Waited 2000, Closed 0, Launched 1, Closed 1]"
    by code_simp+
  have leak: "\<not> closed_each_attempt None
         [Launched 0, LoggedFailure 1, Waited 2000,
           LoggedFailure 2, Waited 2000,
           Launched 2, LoggedFailure 3, Closed 0, Closed 0, Closed 2]"
    by simp
  have rb: "fst (generatePDF ?bad 3) = RenderThrew ''Failed to generate PDF after 3 attempts: timeout''"
     and cb: "closed_each_attempt None (snd (generatePDF ?bad 3))"
    using generatePDF_retry_contract[OF h, of ?bad, THEN conjunct1] b s(1)
    by (auto split: prod.splits)
  have rg: "fst (generatePDF ?good 3) = Rendered ''%PDF''"
    using generatePDF_retry_contract[OF h, of ?good, THEN conjunct1] g
    by (auto split: prod.splits)
  have rn: "fst (generatePDF ?none 12) = RenderThrew ''Failed to generate PDF after 12 attempts: no chrome''"
    using generatePDF_retry_contract[OF h12, of ?none, THEN conjunct1] n s(2)
    by (auto split: prod.splits)
  show ?thesis
    using h h12 rb cb rg rn t leak by (simp add: prod_eq_iff)
qed

text \<open>
  With a maximum of zero attempts the loop body never runs: the function ends without
  a \<open>return\<close> and without an error.
\<close>

lemma generatePDF_no_attempts: "generatePDF env 0 = (RenderUndefined, [])"
  by (simp add: generatePDF_def generatePDF_loop.simps)

section \<open>The handlers' responses\<close>

text \<open>
  C4. Whenever the body has an \<open>items\<close> array and the renderer returns a buffer, the
  host-printing handler answers with status 200 and \<open>success: true\<close>, and \<open>printResult\<close> is
  the value \<open>printPDFBuffer\<close> returned (\<open>null\<close> when \<open>status\<close> is falsy): a failed dispatch is
  visible in \<open>printResult\<close> only.
\<close>


theorem post_printing_host_reports_success:
  assumes "items body = Some its"
    and "generatePDF (attempts h (templateData h body its)) default_maxRetries = (Rendered pdfBuffer, es)"
  shows "(case post_printing_host h files body of (res, es', files') \<Rightarrow>
            http_status res = 200 \<and> success res \<and> error res = None
            \<and> printResult res =
                (if truthy (status body)
                 then Some (fst (printPDFBuffer h files (Some pdfBuffer) (printName body)))
                 else None))"
  using assms
  by (auto simp: post_printing_host_def ok_response_def split: prod.splits)

theorem post_printing_host_reports_success_witness:
  "items example_body = Some []
   \<and> generatePDF (attempts example_host (templateData example_host example_body [])) default_maxRetries
       = (Rendered ''%PDF'', [Launched 0, Closed 0])
   \<and> fst (post_printing_host example_host {} example_body)
       = \<lparr>http_status = 200, success = True,
           printResult = Some \<lparr>pr_success = False,
                                 pr_message = ''Printing error: Command failed: lp'',
                                 pr_jobId = None\<rparr>,
           message = Some ''Printing error: Command failed: lp'', error = None\<rparr>"
proof -
  have i: "items example_body = Some []" by (simp add: example_body_def)
  have g: "generatePDF (attempts example_host (templateData example_host example_body [])) default_maxRetries
       = (Rendered ''%PDF'', [Launched 0, Closed 0])" by code_simp
  have p: "fst (printPDFBuffer example_host {} (Some ''%PDF'') (printName example_body))
      = \<lparr>pr_success = False, pr_message = ''Printing error: Command failed: lp'', pr_jobId = None\<rparr>"
    by code_simp
  have m: "message (fst (post_printing_host example_host {} example_body)) = Some ''Printing error: Command failed: lp''"
    by code_simp
  have t: "truthy (status example_body)" by (simp add: example_body_def)
  show ?thesis
    using i g post_printing_host_reports_success[OF i g, of "{}"] p m t
    by (auto split: prod.splits)
qed

section \<open>Printing without a temporary directory\<close>

text \<open>
  C5, as stated, fails: on a host without \<open>/tmp\<close> the message of \<open>printPDFBuffer\<close> says that
  printing is not supported and nothing about fetching the document; that advice is in
  the message of \<open>printPDF\<close> only.
\<close>


theorem printPDFBuffer_serverless_counterexample:
  "pr_message (fst (printPDFBuffer (example_host\<lparr>tmp_exists := False\<rparr>) {} (Some ''%PDF'') (Str ''HP'')))
     = ''Printing is not supported in serverless environment.''
   \<and> \<not> advises_download ''Printing is not supported in serverless environment.''
   \<and> advises_download printPDF_serverless_message"
  by code_simp

text \<open>
  C5, amended. On a host without \<open>/tmp\<close>, \<open>printPDFBuffer\<close> returns \<open>success: false\<close> with the
  message "Printing is not supported in serverless environment.", writes no file and
  runs no command.
\<close>


theorem printPDFBuffer_serverless:
  assumes "\<not> tmp_exists h"
  shows "printPDFBuffer h files pdfBuffer printerName
     = (\<lparr>pr_success = False,
          pr_message = ''Printing is not supported in serverless environment.'',
          pr_jobId = None\<rparr>, [], files)"
  using assms by (simp add: printPDFBuffer_def failed_def)

theorem printPDFBuffer_serverless_witness:
  "\<not> tmp_exists (example_host\<lparr>tmp_exists := False\<rparr>)
   \<and> printPDFBuffer (example_host\<lparr>tmp_exists := False\<rparr>) {} (Some ''%PDF'') (Str ''HP'')
     = (\<lparr>pr_success = False,
          pr_message = ''Printing is not supported in serverless environment.'',
          pr_jobId = None\<rparr>, [], {})"
proof -
  have h: "\<not> tmp_exists (example_host\<lparr>tmp_exists := False\<rparr>)" by simp
  show ?thesis using h printPDFBuffer_serverless[OF h] by simp
qed

section \<open>The temporary print file\<close>

text \<open>
  C6. The temporary file is unlinked only after \<open>execAsync\<close> has resolved. On the example
  host the print command is rejected: \<open>printPDFBuffer\<close> returns a failure and the file it
  wrote is still there.
\<close>


theorem printPDFBuffer_rejected_exec_leaves_temp_file:
  "(case printPDFBuffer example_host {} (Some ''%PDF'') (Str ''HP'') of (r, es, files') \<Rightarrow>
      r = \<lparr>pr_success = False, pr_message = ''Printing error: Command failed: lp'', pr_jobId = None\<rparr>
      \<and> temp_file example_host = ''/tmp/temp-print-1700000000000.pdf''
      \<and> hd es = WroteFile ''/tmp/temp-print-1700000000000.pdf'' ''%PDF''
      \<and> Unlinked ''/tmp/temp-print-1700000000000.pdf'' \<notin> set es
      \<and> ''/tmp/temp-print-1700000000000.pdf'' \<in> files')"
  by code_simp

text \<open>
  The same on a platform that is none of \<open>darwin\<close>, \<open>linux\<close> and \<open>win32\<close>: the early return
  comes after the write.
\<close>


lemma printPDFBuffer_unsupported_platform_leaves_temp_file:
  "(case printPDFBuffer (example_host\<lparr>platform := ''freebsd''\<rparr>) {} (Some ''%PDF'') (Str ''HP'') of (r, es, files') \<Rightarrow>
      r = \<lparr>pr_success = False, pr_message = ''Unsupported platform: freebsd'', pr_jobId = None\<rparr>
      \<and> es = [WroteFile ''/tmp/temp-print-1700000000000.pdf'' ''%PDF'']
      \<and> files' = {''/tmp/temp-print-1700000000000.pdf''})"
  by code_simp

text \<open>
  When \<open>execAsync\<close> resolves and \<open>unlinkSync\<close> succeeds the file is gone, whatever the
  command wrote to its standard error.
\<close>

lemma printPDFBuffer_resolved_exec_removes_temp_file:
  assumes "tmp_exists h" and "write_error h = None" and "unlink_error h = None"
    and "platform h = ''linux''"
    and "exec h (lp_command (to_string printerName) (temp_file h)) = ExecResolves out err"
  shows "snd (snd (printPDFBuffer h files (Some b) printerName)) = files - {temp_file h}"
  using assms
  by (simp add: printPDFBuffer_def write_outcome_def run_print_command_def Let_def)

section \<open>A body without items\<close>

text \<open>
  C7, as stated, fails: a body without \<open>items\<close> is answered with status 500, not with a
  status between 400 and 499.
\<close>


theorem post_printing_service_missing_items_counterexample:
  "http_status (fst (post_printing_service example_host (example_body\<lparr>items := None\<rparr>))) = 500
   \<and> \<not> (400 \<le> http_status (fst (post_printing_service example_host (example_body\<lparr>items := None\<rparr>)))
        \<and> http_status (fst (post_printing_service example_host (example_body\<lparr>items := None\<rparr>))) < 500)"
  by (simp add: post_printing_service_def error_response_def)

text \<open>
  C7, amended. A body without \<open>items\<close> is answered with status 500, \<open>success: false\<close> and
  the message of the \<open>TypeError\<close> as \<open>error\<close>; the handler has no other effect.
\<close>


theorem post_printing_service_missing_items:
  assumes "items body = None"
  shows "post_printing_service h body
     = (\<lparr>http_status = 500, success = False, printResult = None, message = None,
          error = Some map_of_undefined\<rparr>, [])"
  using assms by (simp add: post_printing_service_def error_response_def)

theorem post_printing_service_missing_items_witness:
  "items (example_body\<lparr>items := None\<rparr>) = None
   \<and> post_printing_service example_host (example_body\<lparr>items := None\<rparr>)
     = (\<lparr>http_status = 500, success = False, printResult = None, message = None,
          error = Some map_of_undefined\<rparr>, [])"
proof -
  have h: "items (example_body\<lparr>items := None\<rparr>) = None" by simp
  show ?thesis using h post_printing_service_missing_items[OF h] by simp
qed

section \<open>No print target\<close>

text \<open>
  C9. When \<open>printerId\<close> is falsy and the PDF is composed, the print-service handler answers
  \<open>success: true\<close> with \<open>printResult: null\<close>, and makes no call to the print service and
  runs no command.
\<close>


theorem post_printing_service_no_target:
  assumes "items body = Some its"
    and "pdfkit h (templateData h body its) = Inr pdfBuffer"
    and "\<not> truthy (printerId body)"
  shows "post_printing_service h body
     = (\<lparr>http_status = 200, success = True, printResult = None,
          message = Some ''PDF generated successfully'', error = None\<rparr>, [])"
  using assms by (simp add: post_printing_service_def ok_response_def)

theorem post_printing_service_no_target_witness:
  "items example_body = Some []
   \<and> pdfkit example_host (templateData example_host example_body []) = Inr ''%PDF''
   \<and> \<not> truthy (printerId example_body)
   \<and> post_printing_service example_host example_body
     = (\<lparr>http_status = 200, success = True, printResult = None,
          message = Some ''PDF generated successfully'', error = None\<rparr>, [])"
proof -
  have a: "items example_body = Some []" by (simp add: example_body_def)
  have b: "pdfkit example_host (templateData example_host example_body []) = Inr ''%PDF''"
    by (simp add: example_host_def)
  have c: "\<not> truthy (printerId example_body)" by (simp add: example_body_def)
  show ?thesis using a b c post_printing_service_no_target[OF a b c] by simp
qed

section \<open>Rounding to a double\<close>

text \<open>The digit count brackets its argument between two powers of the base.\<close>


lemma idigits_nonneg: "0 \<le> idigits b n"
proof (induction b n rule: idigits.induct)
  case (1 b n)
  then show ?case by (subst idigits.simps) auto
qed

lemma idigits_pos: "0 < n \<Longrightarrow> 2 \<le> b \<Longrightarrow> 1 \<le> idigits b n"
  using idigits_nonneg[of b "n div b"] by (subst idigits.simps) simp

lemma idigits_bounds:
  "0 < n \<Longrightarrow> 2 \<le> b \<Longrightarrow> b ^ nat (idigits b n - 1) \<le> n \<and> n < b ^ nat (idigits b n)"
proof (induction b n rule: idigits.induct)
  case (1 b n)
  have b0: "0 < b" using 1(3) by simp
  have dm: "b * (n div b) + n mod b = n" by simp
  have m0: "0 \<le> n mod b" using b0 by simp
  have m1: "n mod b < b" using b0 by simp
  show ?case
  proof (cases "n div b = 0")
    case True
    then have "n < b" using dm m1 by simp
    have "idigits b n = 1"
      using 1(2,3) True by (subst idigits.simps, subst idigits.simps) simp
    then show ?thesis using \<open>n < b\<close> 1(2) by simp
  next
    case False
    have "0 \<le> n div b" using 1(2) b0 by (simp add: pos_imp_zdiv_nonneg_iff)
    with False have pos: "0 < n div b" by simp
    have ih: "b ^ nat (idigits b (n div b) - 1) \<le> n div b \<and> n div b < b ^ nat (idigits b (n div b))"
      using 1(1)[OF _ pos 1(3)] 1(2,3) by simp
    have step: "idigits b n = 1 + idigits b (n div b)"
      using 1(2,3) by (subst idigits.simps) simp
    have d1: "1 \<le> idigits b (n div b)" using idigits_pos[OF pos 1(3)] .
    have e1: "nat (idigits b n - 1) = Suc (nat (idigits b (n div b) - 1))"
      using d1 step by simp
    have e2: "nat (idigits b n) = Suc (nat (idigits b (n div b)))"
      using d1 step by simp
    have lo: "b * b ^ nat (idigits b (n div b) - 1) \<le> n"
    proof -
      have "b * b ^ nat (idigits b (n div b) - 1) \<le> b * (n div b)"
        using ih b0 by (simp add: mult_left_mono)
      also have "\<dots> \<le> n" using dm m0 by linarith
      finally show ?thesis .
    qed
    have hi: "n < b * b ^ nat (idigits b (n div b))"
    proof -
      have "n div b + 1 \<le> b ^ nat (idigits b (n div b))" using ih by simp
      then have "b * (n div b + 1) \<le> b * b ^ nat (idigits b (n div b))"
        using b0 by (simp add: mult_left_mono)
      moreover have "b * (n div b + 1) = b * (n div b) + b" by (simp add: distrib_left)
      ultimately show ?thesis using dm m1 by linarith
    qed
    show ?thesis using lo hi by (simp add: e1 e2)
  qed
qed

lemma flog2_bounds:
  assumes "0 < q"
  shows "2 powi (flog 2 q) \<le> q" and "q < 2 powi (flog 2 q + 1)"
proof -
  show "2 powi (flog 2 q) \<le> q"
  proof (cases "1 \<le> q")
    case True
    then have n: "0 < \<lfloor>q\<rfloor>" by simp
    let ?d = "idigits 2 \<lfloor>q\<rfloor>"
    have d: "1 \<le> ?d" using idigits_pos[OF n] by simp
    have "(2::int) ^ nat (?d - 1) \<le> \<lfloor>q\<rfloor>" using idigits_bounds[OF n, of 2] by simp
    then have "of_int ((2::int) ^ nat (?d - 1)) \<le> (of_int \<lfloor>q\<rfloor> :: rat)" by (simp only: of_int_le_iff)
    also have "\<dots> \<le> q" by simp
    finally have "(2::rat) ^ nat (?d - 1) \<le> q" by simp
    moreover have "(2::rat) powi (?d - 1) = 2 ^ nat (?d - 1)" using d by (simp add: power_int_def)
    ultimately show ?thesis using True by (simp add: flog_def)
  next
    case False
    then have q1: "q < 1" by simp
    have "1 < 1 / q" using assms q1 by simp
    then have c: "2 \<le> \<lceil>1 / q\<rceil>" by (simp add: le_ceiling_iff)
    then have n: "0 < \<lceil>1 / q\<rceil> - 1" by simp
    let ?d = "idigits 2 (\<lceil>1 / q\<rceil> - 1)"
    have "\<lceil>1 / q\<rceil> - 1 < (2::int) ^ nat ?d" using idigits_bounds[OF n, of 2] by simp
    then have "\<lceil>1 / q\<rceil> \<le> (2::int) ^ nat ?d" by simp
    then have "(of_int \<lceil>1 / q\<rceil> :: rat) \<le> of_int ((2::int) ^ nat ?d)" by (simp only: of_int_le_iff)
    moreover have "1 / q \<le> of_int \<lceil>1 / q\<rceil>" by (rule le_of_int_ceiling)
    moreover have "(of_int ((2::int) ^ nat ?d) :: rat) = 2 ^ nat ?d" by simp
    ultimately have "1 / q \<le> 2 ^ nat ?d" by linarith
    then have "1 \<le> 2 ^ nat ?d * q" using assms by (simp add: field_simps)
    then have "1 / 2 ^ nat ?d \<le> q" by (simp add: field_simps)
    moreover have "(2::rat) powi (- ?d) = 1 / 2 ^ nat ?d"
      using idigits_nonneg[of 2 "\<lceil>1 / q\<rceil> - 1"] by (simp add: power_int_def field_simps)
    ultimately show ?thesis using False by (simp add: flog_def)
  qed
  show "q < 2 powi (flog 2 q + 1)"
  proof (cases "1 \<le> q")
    case True
    then have n: "0 < \<lfloor>q\<rfloor>" by simp
    let ?d = "idigits 2 \<lfloor>q\<rfloor>"
    have d: "1 \<le> ?d" using idigits_pos[OF n] by simp
    have "\<lfloor>q\<rfloor> < (2::int) ^ nat ?d" using idigits_bounds[OF n, of 2] by simp
    then have "\<lfloor>q\<rfloor> + 1 \<le> (2::int) ^ nat ?d" by linarith
    then have "(of_int (\<lfloor>q\<rfloor> + 1) :: rat) \<le> of_int ((2::int) ^ nat ?d)" by (simp only: of_int_le_iff)
    moreover have "q < of_int (\<lfloor>q\<rfloor> + 1)" using floor_correct[of q] by blast
    ultimately have "q < 2 ^ nat ?d" by simp
    moreover have "(2::rat) powi ?d = 2 ^ nat ?d" using d by (simp add: power_int_def)
    ultimately show ?thesis using True by (simp add: flog_def)
  next
    case False
    then have q1: "q < 1" by simp
    have "1 < 1 / q" using assms q1 by simp
    then have c: "2 \<le> \<lceil>1 / q\<rceil>" by (simp add: le_ceiling_iff)
    then have n: "0 < \<lceil>1 / q\<rceil> - 1" by simp
    let ?d = "idigits 2 (\<lceil>1 / q\<rceil> - 1)"
    have d: "1 \<le> ?d" using idigits_pos[OF n] by simp
    have "(2::int) ^ nat (?d - 1) \<le> \<lceil>1 / q\<rceil> - 1" using idigits_bounds[OF n, of 2] by simp
    then have "(of_int ((2::int) ^ nat (?d - 1)) :: rat) \<le> of_int (\<lceil>1 / q\<rceil> - 1)" by (simp only: of_int_le_iff)
    moreover have "of_int (\<lceil>1 / q\<rceil> - 1) < 1 / q"
      using of_int_ceiling_diff_one_le[of "1 / q"] ceiling_correct[of "1 / q"] by simp
    ultimately have "2 ^ nat (?d - 1) < 1 / q" by simp
    then have "2 ^ nat (?d - 1) * q < 1" using assms by (simp add: field_simps)
    then have "q < 1 / 2 ^ nat (?d - 1)" by (simp add: field_simps)
    moreover have "(2::rat) powi (- ?d + 1) = 1 / 2 ^ nat (?d - 1)"
    proof -
      have "- ?d + 1 = - int (nat (?d - 1))" using d by simp
      then show ?thesis by (simp only: power_int_minus power_int_of_nat) (simp add: field_simps)
    qed
    ultimately show ?thesis using False by (simp add: flog_def)
  qed
qed

lemma round_half_even_error:
  "\<bar>of_int (round_half_even y) - y\<bar> \<le> 1 / 2"
proof -
  define f where "f = \<lfloor>y\<rfloor>"
  have "of_int f \<le> y" "y < of_int f + 1" unfolding f_def by linarith+
  then show ?thesis
    unfolding round_half_even_def Let_def f_def[symmetric]
    by (auto simp: abs_if)
qed

lemma round_half_even_nonneg: "0 \<le> y \<Longrightarrow> 0 \<le> round_half_even y"
  by (auto simp: round_half_even_def Let_def)

lemma rnd_normal:
  assumes "q \<noteq> 0" and "max (flog 2 \<bar>q\<bar>) (- 1022) < 1023"
  shows "rnd q =
     Fin (if q < 0
          then - (of_int (round_half_even (\<bar>q\<bar> / 2 powi (max (flog 2 \<bar>q\<bar>) (- 1022) - 52)))
                   * 2 powi (max (flog 2 \<bar>q\<bar>) (- 1022) - 52))
          else of_int (round_half_even (\<bar>q\<bar> / 2 powi (max (flog 2 \<bar>q\<bar>) (- 1022) - 52)))
                   * 2 powi (max (flog 2 \<bar>q\<bar>) (- 1022) - 52))"
proof -
  have a: "\<not> 1023 < max (flog 2 \<bar>q\<bar>) (- 1022)" "max (flog 2 \<bar>q\<bar>) (- 1022) \<noteq> 1023"
    using assms(2) by linarith+
  show ?thesis
    unfolding rnd_def Let_def by (simp only: assms(1) a if_False)
qed

lemma rnd_error:
  fixes k :: int
  assumes "\<bar>q\<bar> \<le> 2 powi k" and "- 1022 \<le> k" and "k \<le> 1022"
  shows "\<exists>r. rnd q = Fin r \<and> \<bar>r - q\<bar> \<le> 2 powi (k - 53)"
proof (cases "q = 0")
  case True
  then show ?thesis by (simp add: rnd_def)
next
  case False
  then have pos: "0 < \<bar>q\<bar>" by simp
  define e where "e = max (flog 2 \<bar>q\<bar>) (- 1022)"
  define u :: rat where "u = 2 powi (e - 52)"
  define m where "m = round_half_even (\<bar>q\<bar> / u)"
  have "2 powi (flog 2 \<bar>q\<bar>) \<le> (2::rat) powi k"
    using flog2_bounds(1)[OF pos] assms(1) by linarith
  then have "flog 2 \<bar>q\<bar> \<le> k"
    using power_int_strict_increasing[of k "flog 2 \<bar>q\<bar>" "2::rat"] by force
  then have ek: "e \<le> k" using assms(2) by (simp add: e_def)
  have u0: "0 < u" by (simp add: u_def)
  have "\<bar>of_int m - \<bar>q\<bar> / u\<bar> \<le> 1 / 2" unfolding m_def by (rule round_half_even_error)
  then have "\<bar>of_int m - \<bar>q\<bar> / u\<bar> * u \<le> 1 / 2 * u" using u0 by (simp add: mult_right_mono)
  moreover have "\<bar>of_int m - \<bar>q\<bar> / u\<bar> * u = \<bar>of_int m * u - \<bar>q\<bar>\<bar>"
  proof -
    have "\<bar>of_int m - \<bar>q\<bar> / u\<bar> * u = \<bar>(of_int m - \<bar>q\<bar> / u) * u\<bar>"
      using u0 by (simp add: abs_mult)
    also have "(of_int m - \<bar>q\<bar> / u) * u = of_int m * u - \<bar>q\<bar>"
      using u0 by (simp add: field_simps)
    finally show ?thesis .
  qed
  moreover have "1 / 2 * u = 2 powi (e - 53)"
  proof -
    have "(2::rat) powi (e - 53 + 1) = 2 powi (e - 53) * 2" by (rule power_int_add_1) simp
    then have "u = 2 powi (e - 53) * 2" unfolding u_def by simp
    then show ?thesis by simp
  qed
  moreover have "(2::rat) powi (e - 53) \<le> 2 powi (k - 53)"
    using ek by (intro power_int_increasing) simp_all
  ultimately have err: "\<bar>of_int m * u - \<bar>q\<bar>\<bar> \<le> 2 powi (k - 53)" by linarith
  have e1: "e < 1023" using ek assms(3) by simp
  have res: "rnd q = Fin (if q < 0 then - (of_int m * u) else of_int m * u)"
    using rnd_normal[OF False e1[unfolded e_def]] unfolding m_def u_def e_def .
  show ?thesis
  proof (cases "q < 0")
    case True
    then have "- (of_int m * u) - q = - (of_int m * u - \<bar>q\<bar>)" by simp
    then have "\<bar>- (of_int m * u) - q\<bar> = \<bar>of_int m * u - \<bar>q\<bar>\<bar>" by (simp only: abs_minus_cancel)
    then show ?thesis using res True err by simp
  next
    case False
    then have "\<bar>of_int m * u - q\<bar> = \<bar>of_int m * u - \<bar>q\<bar>\<bar>" by simp
    then show ?thesis using res False err by simp
  qed
qed

section \<open>Printing and reading back an amount\<close>


lemma dec_value_zeros: "dec_value (replicate j (CHR ''0'') @ ds) = dec_value ds"
proof -
  have "foldl (\<lambda>a c. 10 * a + digit_val c) 0 (replicate j (CHR ''0'')) = 0"
    by (induction j) (simp_all add: digit_val_def)
  then show ?thesis by (simp add: dec_value_def)
qed

lemma is_digit_zero: "is_digit (CHR ''0'')"
  by (simp add: is_digit_def)

text \<open>The digits of \<open>fixed2_digits n\<close>: an integer part, a point and two decimals.\<close>

lemma fixed2_digits_shape:
  assumes "0 \<le> n"
  shows "\<exists>ip fp. fixed2_digits n = ip @ ''.'' @ fp \<and> ip \<noteq> [] \<and> length fp = 2
           \<and> (\<forall>c \<in> set ip. is_digit c) \<and> (\<forall>c \<in> set fp. is_digit c)
           \<and> dec_value (ip @ fp) = n"
proof -
  define m where "m = show_nat n"
  define m' where "m' = (if length m \<le> 2 then replicate (3 - length m) (CHR ''0'') @ m else m)"
  have mp: "m \<noteq> []" "\<forall>c \<in> set m. is_digit c" "dec_value m = n"
    using show_nat_props[OF assms] by (simp_all add: m_def)
  have len: "3 \<le> length m'" by (auto simp: m'_def)
  have dig: "\<forall>c \<in> set m'. is_digit c" using mp(2) by (auto simp: m'_def is_digit_zero)
  have val: "dec_value m' = n" using mp(3) by (simp add: m'_def dec_value_zeros)
  let ?ip = "take (length m' - 2) m'"
  let ?fp = "drop (length m' - 2) m'"
  have "fixed2_digits n = ?ip @ ''.'' @ ?fp"
    by (simp add: fixed2_digits_def Let_def m_def m'_def)
  moreover have "?ip \<noteq> []" using len by auto
  moreover have "length ?fp = 2" using len by simp
  moreover have "\<forall>c \<in> set ?ip. is_digit c" using dig by (meson in_set_takeD)
  moreover have "\<forall>c \<in> set ?fp. is_digit c" using dig by (meson in_set_dropD)
  moreover have "dec_value (?ip @ ?fp) = n" using val by simp
  ultimately show ?thesis by blast
qed

lemma takeWhile_digits:
  "\<forall>c \<in> set ds. is_digit c \<Longrightarrow> takeWhile is_digit (ds @ CHR ''.'' # r) = ds"
  "\<forall>c \<in> set ds. is_digit c \<Longrightarrow> dropWhile is_digit (ds @ CHR ''.'' # r) = CHR ''.'' # r"
  "\<forall>c \<in> set ds. is_digit c \<Longrightarrow> takeWhile is_digit ds = ds"
  "\<forall>c \<in> set ds. is_digit c \<Longrightarrow> dropWhile is_digit ds = []"
  by (simp_all add: takeWhile_append2 dropWhile_append2 is_digit_def)

lemma parseFloat_str_decimal:
  assumes "ip \<noteq> []" "\<forall>c \<in> set ip. is_digit c" "\<forall>c \<in> set fp. is_digit c"
  shows "parseFloat_str (ip @ CHR ''.'' # fp)
           = rnd (of_int (dec_value (ip @ fp)) * 10 powi (- int (length fp)))"
    and "parseFloat_str (CHR ''-'' # ip @ CHR ''.'' # fp)
           = rnd (- (of_int (dec_value (ip @ fp)) * 10 powi (- int (length fp))))"
proof -
  obtain c cs where ip: "ip = c # cs" using assms(1) by (cases ip) auto
  have c: "is_digit c" using assms(2) ip by simp
  have nws: "\<not> is_ws c" "c \<noteq> CHR ''-''" "c \<noteq> CHR ''+''" "c \<noteq> CHR ''I''"
    using c by (auto simp: is_digit_def is_ws_def)
  let ?s = "ip @ CHR ''.'' # fp"
  have inf: "take 8 ?s \<noteq> ''Infinity''" using nws(4) ip by auto
  have sgn: "take_sign ?s = (False, ?s)" using nws ip by simp
  have ws: "dropWhile is_ws ?s = ?s" using nws ip by simp
  have tw: "takeWhile is_digit ?s = ip" "dropWhile is_digit ?s = CHR ''.'' # fp"
    using takeWhile_digits(1,2)[OF assms(2), of fp] by simp_all
  have fw: "takeWhile is_digit fp = fp" "dropWhile is_digit fp = []"
    using takeWhile_digits(3,4)[OF assms(3)] by simp_all
  have ex: "exponent_part [] = 0" by (simp add: exponent_part_def)
  have body: "(if take 8 ?s = ''Infinity'' then (if neg then NInf else PInf)
         else
           let ip = takeWhile is_digit ?s;
               r1 = dropWhile is_digit ?s;
               has_dot = (r1 \<noteq> [] \<and> hd r1 = CHR ''.'');
               fp = (if has_dot then takeWhile is_digit (tl r1) else []);
               r2 = (if has_dot then dropWhile is_digit (tl r1) else r1)
           in if ip = [] \<and> fp = [] then NaN
              else
                let v = of_int (dec_value (ip @ fp)) * 10 powi (exponent_part r2 - int (length fp))
                in rnd (if neg then - v else v))
      = rnd (if neg then - (of_int (dec_value (ip @ fp)) * 10 powi (- int (length fp)))
             else of_int (dec_value (ip @ fp)) * 10 powi (- int (length fp)))" for neg
    unfolding tw Let_def using inf assms(1) by (simp add: fw ex)
  show "parseFloat_str ?s = rnd (of_int (dec_value (ip @ fp)) * 10 powi (- int (length fp)))"
    unfolding parseFloat_str_def ws sgn Let_def prod.case
    using body[of False, unfolded Let_def] by simp
  have ws': "dropWhile is_ws (CHR ''-'' # ?s) = CHR ''-'' # ?s" by (simp add: is_ws_def)
  have sgn': "take_sign (CHR ''-'' # ?s) = (True, ?s)" by simp
  show "parseFloat_str (CHR ''-'' # ?s) = rnd (- (of_int (dec_value (ip @ fp)) * 10 powi (- int (length fp))))"
    unfolding parseFloat_str_def ws' sgn' Let_def prod.case
    using body[of True, unfolded Let_def] by simp
qed

lemma floor_half_error:
  fixes y :: rat
  shows "\<bar>of_int \<lfloor>y * 100 + 1 / 2\<rfloor> / 100 - y\<bar> \<le> 1 / 200"
proof -
  define f where "f = \<lfloor>y * 100 + 1 / 2\<rfloor>"
  have "of_int f \<le> y * 100 + 1 / 2" "y * 100 + 1 / 2 < of_int f + 1"
    unfolding f_def by linarith+
  then have "\<bar>of_int f / 100 - y\<bar> \<le> 1 / 200" by (simp add: abs_if field_simps)
  then show ?thesis unfolding f_def .
qed

lemma to_cents_error: "\<bar>of_int (to_cents x) / 100 - x\<bar> \<le> 1 / 200"
proof (cases "x < 0")
  case True
  have "of_int (to_cents x) / 100 - x = - (of_int \<lfloor>- x * 100 + 1 / 2\<rfloor> / 100 - (- x))"
    using True by (simp add: to_cents_def)
  then show ?thesis using floor_half_error[of "- x"] by (simp only: abs_minus_cancel)
next
  case False
  then show ?thesis using floor_half_error[of x] by (simp add: to_cents_def)
qed

lemma to_cents_sign: "x < 0 \<Longrightarrow> to_cents x \<le> 0" "0 \<le> x \<Longrightarrow> 0 \<le> to_cents x"
  by (simp_all add: to_cents_def)

lemma toFixed2_cents:
  assumes "\<bar>x\<bar> < 10 ^ 21"
  shows "toFixed2 (Fin x) =
     (if x < 0 then CHR ''-'' # fixed2_digits (- to_cents x) else fixed2_digits (to_cents x))"
proof (cases "x < 0")
  case True
  then have "\<not> 10 ^ 21 \<le> - x" using assms by simp
  then show ?thesis using True by (simp only: toFixed2.simps toFixed2_pos_def to_cents_def if_True if_False minus_minus append.simps)
next
  case False
  then have "\<not> 10 ^ 21 \<le> x" using assms by simp
  then show ?thesis using False by (simp only: toFixed2.simps toFixed2_pos_def to_cents_def if_False)
qed

lemma toFixed2_shows_cents:
  assumes "\<bar>x\<bar> < 10 ^ 21"
  shows "shows_cents (toFixed2 (Fin x)) (to_cents x)"
proof (cases "x < 0")
  case True
  then have le: "to_cents x \<le> 0" by (rule to_cents_sign)
  have z: "fixed2_digits 0 = ''0.00''" by code_simp
  show ?thesis
  proof (cases "to_cents x = 0")
    case True
    then show ?thesis using \<open>x < 0\<close> toFixed2_cents[OF assms] z by (simp add: shows_cents_def)
  next
    case False
    with le have "to_cents x < 0" by simp
    then show ?thesis using \<open>x < 0\<close> toFixed2_cents[OF assms] by (simp add: shows_cents_def fixed2_def)
  qed
next
  case False
  then have "0 \<le> to_cents x" by (simp add: to_cents_sign)
  then show ?thesis using False toFixed2_cents[OF assms] by (simp add: shows_cents_def fixed2_def)
qed

lemma parseFloat_fixed2_digits:
  assumes "0 \<le> n"
  shows "parseFloat_str (fixed2_digits n) = rnd (of_int n / 100)"
    and "parseFloat_str (CHR ''-'' # fixed2_digits n) = rnd (- (of_int n / 100))"
proof -
  obtain ip fp where s: "fixed2_digits n = ip @ ''.'' @ fp" "ip \<noteq> []" "length fp = 2"
      "\<forall>c \<in> set ip. is_digit c" "\<forall>c \<in> set fp. is_digit c" "dec_value (ip @ fp) = n"
    using fixed2_digits_shape[OF assms] by blast
  have p: "(10::rat) powi (- int (length fp)) = 1 / 100"
    using s(3) by (simp add: power_int_minus field_simps)
  show "parseFloat_str (fixed2_digits n) = rnd (of_int n / 100)"
    using parseFloat_str_decimal(1)[OF s(2,4,5)] s(1,6) p by simp
  show "parseFloat_str (CHR ''-'' # fixed2_digits n) = rnd (- (of_int n / 100))"
    using parseFloat_str_decimal(2)[OF s(2,4,5)] s(1,6) p by simp
qed

lemma parseFloat_toFixed2:
  assumes "\<bar>x\<bar> < 10 ^ 21"
  shows "parseFloat_str (toFixed2 (Fin x)) = rnd (of_int (to_cents x) / 100)"
proof (cases "x < 0")
  case True
  then have "0 \<le> - to_cents x" using to_cents_sign(1) by simp
  from parseFloat_fixed2_digits(2)[OF this] show ?thesis
    using True toFixed2_cents[OF assms] by simp
next
  case False
  then have "0 \<le> to_cents x" by (simp add: to_cents_sign)
  from parseFloat_fixed2_digits(1)[OF this] show ?thesis
    using False toFixed2_cents[OF assms] by simp
qed

text \<open>The running sum of the handler's \<open>reduce\<close>, on subtotals given in cents.\<close>

lemma sum_error:
  fixes k :: nat and A a E :: rat
  assumes "k \<le> 1022"
    and "\<bar>A\<bar> + (\<Sum>c\<leftarrow>cs. \<bar>of_int c / 100\<bar>) + 1 \<le> 2 ^ k"
    and "\<bar>a - A\<bar> \<le> E"
    and "E + 2 * of_nat (length cs) * 2 powi (int k - 53) \<le> 1"
  shows "\<exists>r. foldl (\<lambda>s c. jadd s (rnd (of_int c / 100))) (Fin a) cs = Fin r
           \<and> \<bar>r - (A + (\<Sum>c\<leftarrow>cs. of_int c / 100))\<bar> \<le> E + 2 * of_nat (length cs) * 2 powi (int k - 53)"
  using assms(2-)
proof (induction cs arbitrary: a A E)
  case Nil
  then show ?case by simp
next
  case (Cons c cs)
  define \<delta> :: rat where "\<delta> = 2 powi (int k - 53)"
  have \<delta>0: "0 < \<delta>" by (simp add: \<delta>_def)
  define d :: rat where "d = of_int c / 100"
  have sum0: "0 \<le> (\<Sum>c\<leftarrow>cs. \<bar>rat_of_int c / 100\<bar>)" by (rule sum_list_nonneg) auto
  have bound: "\<bar>A\<bar> + \<bar>d\<bar> + (\<Sum>c\<leftarrow>cs. \<bar>of_int c / 100\<bar>) + 1 \<le> 2 ^ k"
    using Cons.prems(1) by (simp add: d_def algebra_simps)
  have E0: "0 \<le> E" using Cons.prems(2) by linarith
  have Eb: "E + 2 * \<delta> + 2 * of_nat (length cs) * \<delta> \<le> 1"
    using Cons.prems(3) by (simp add: \<delta>_def algebra_simps)
  have cs0: "0 \<le> 2 * of_nat (length cs) * \<delta>" using \<delta>0 by simp
  have k1: "- 1022 \<le> int k" "int k \<le> 1022" using assms(1) by simp_all
  have pk: "(2::rat) powi int k = 2 ^ k" by simp
  have "\<bar>d\<bar> \<le> 2 powi int k" using bound sum0 unfolding pk by linarith
  from rnd_error[OF this k1] obtain p where p: "rnd d = Fin p" "\<bar>p - d\<bar> \<le> \<delta>"
    unfolding \<delta>_def by blast
  have "\<bar>a + p\<bar> \<le> \<bar>A\<bar> + \<bar>d\<bar> + E + \<delta>" using Cons.prems(2) p(2) by linarith
  also have "\<dots> \<le> \<bar>A\<bar> + \<bar>d\<bar> + 1" using Eb cs0 \<delta>0 by linarith
  also have "\<dots> \<le> 2 ^ k" using bound sum0 by linarith
  finally have "\<bar>a + p\<bar> \<le> 2 powi int k" unfolding pk .
  from rnd_error[OF this k1] obtain a' where a': "rnd (a + p) = Fin a'" "\<bar>a' - (a + p)\<bar> \<le> \<delta>"
    unfolding \<delta>_def by blast
  have err: "\<bar>a' - (A + d)\<bar> \<le> E + 2 * \<delta>" using a'(2) p(2) Cons.prems(2) by linarith
  have b': "\<bar>A + d\<bar> + (\<Sum>c\<leftarrow>cs. \<bar>of_int c / 100\<bar>) + 1 \<le> 2 ^ k" using bound by linarith
  have e': "E + 2 * \<delta> + 2 * of_nat (length cs) * 2 powi (int k - 53) \<le> 1"
    using Eb by (simp add: \<delta>_def)
  from Cons.IH[OF b' err e'] obtain r where
    r: "foldl (\<lambda>s c. jadd s (rnd (of_int c / 100))) (Fin a') cs = Fin r"
       "\<bar>r - (A + d + (\<Sum>c\<leftarrow>cs. of_int c / 100))\<bar> \<le> E + 2 * \<delta> + 2 * of_nat (length cs) * 2 powi (int k - 53)"
    by blast
  have step: "jadd (Fin a) (rnd (of_int c / 100)) = Fin a'"
    using p(1) a'(1) by (simp add: d_def)
  show ?case
    using r step by (simp add: d_def \<delta>_def algebra_simps)
qed

section \<open>The total of a list of items\<close>


lemma subtotal_field:
  "get_prop (with_subtotal it) ''subtotal'' = Str (toFixed2 (item_subtotal it))"
  by (simp add: with_subtotal_def get_prop_def)

lemma calculatedTotal_fold:
  "calculatedTotal (itemsWithSubtotals its)
     = toFixed2 (foldl (\<lambda>sum it. jadd sum (parseFloat_str (toFixed2 (item_subtotal it)))) (Fin 0) its)"
  by (simp add: calculatedTotal_def itemsWithSubtotals_def foldl_map subtotal_field parseFloat_def)

lemma sum_list_cents:
  "(\<Sum>c\<leftarrow>cs. \<bar>rat_of_int c / 100\<bar>) = of_int (\<Sum>c\<leftarrow>cs. \<bar>c\<bar>) / 100"
  "(\<Sum>c\<leftarrow>cs. rat_of_int c / 100) = of_int (sum_list cs) / 100"
  by (induction cs) (simp_all add: field_simps)

lemma abs_le_sum_list_abs:
  fixes c :: int
  shows "c \<in> set cs \<Longrightarrow> \<bar>c\<bar> \<le> (\<Sum>c\<leftarrow>cs. \<bar>c\<bar>)"
proof (induction cs)
  case Nil
  then show ?case by simp
next
  case (Cons a cs)
  have "0 \<le> (\<Sum>c\<leftarrow>cs. \<bar>c\<bar>)" by (rule sum_list_nonneg) auto
  then show ?case using Cons by auto
qed

lemma to_cents_unique:
  assumes "\<bar>r - of_int K / 100\<bar> < 1 / 200"
  shows "to_cents r = K"
proof (cases "r < 0")
  case True
  have "\<lfloor>- r * 100 + 1 / 2\<rfloor> = - K"
    using assms by (intro floor_unique) (simp_all add: abs_if field_simps split: if_splits)
  then show ?thesis using True by (simp add: to_cents_def)
next
  case False
  have "\<lfloor>r * 100 + 1 / 2\<rfloor> = K"
    using assms by (intro floor_unique) (simp_all add: abs_if field_simps split: if_splits)
  then show ?thesis using False by (simp add: to_cents_def)
qed

lemma total_of_bounded_items:
  fixes k :: nat
  assumes fin: "\<forall>it \<in> set its. \<exists>x. item_subtotal it = Fin x"
    and sum: "(\<Sum>it\<leftarrow>its. \<bar>subtotal_cents it\<bar>) + 100 \<le> 100 * 2 ^ k"
    and len: "400 * length its * 2 ^ k < 2 ^ 53"
  shows "(\<forall>it \<in> set its. \<exists>s. get_prop (with_subtotal it) ''subtotal'' = Str s
                                   \<and> shows_cents s (subtotal_cents it))
       \<and> shows_cents (calculatedTotal (itemsWithSubtotals its)) (\<Sum>it\<leftarrow>its. subtotal_cents it)"
proof (cases "its = []")
  case True
  have "toFixed2 (Fin 0) = ''0.00''" by code_simp
  moreover have "fixed2 0 = ''0.00''" by code_simp
  ultimately show ?thesis using True by (simp add: calculatedTotal_fold shows_cents_def)
next
  case False
  then have n1: "1 \<le> length its" by (cases its) auto
  have "400 * 1 * 2 ^ k \<le> 400 * length its * (2::nat) ^ k" using n1 by simp
  then have k53: "400 * (2::nat) ^ k < 2 ^ 53" using len by linarith
  have lt: "(2::nat) ^ k < 2 ^ 53" using k53 by linarith
  have k_lt: "k < 53" by (rule power_less_imp_less_exp[OF _ lt]) simp
  then have k1022: "k \<le> 1022" by simp
  have pk: "(2::rat) ^ k < 2 ^ 53" using k_lt by (intro power_strict_increasing) simp_all
  have big: "(2::rat) ^ 53 < 10 ^ 21" by simp
  define cs where "cs = map subtotal_cents its"
  have cs_abs: "(\<Sum>c\<leftarrow>cs. \<bar>c\<bar>) = (\<Sum>it\<leftarrow>its. \<bar>subtotal_cents it\<bar>)"
    and cs_sum: "sum_list cs = (\<Sum>it\<leftarrow>its. subtotal_cents it)"
    and cs_len: "length cs = length its"
    by (simp_all add: cs_def comp_def)
  have each: "\<exists>x. item_subtotal it = Fin x \<and> \<bar>x\<bar> < 10 ^ 21 \<and> subtotal_cents it = to_cents x"
    if mem: "it \<in> set its" for it
  proof -
    obtain x where x: "item_subtotal it = Fin x" using fin mem by blast
    then have c: "subtotal_cents it = to_cents x" by (simp add: subtotal_cents_def)
    have "\<bar>subtotal_cents it\<bar> \<le> (\<Sum>c\<leftarrow>cs. \<bar>c\<bar>)"
      using mem by (intro abs_le_sum_list_abs) (simp add: cs_def)
    then have "\<bar>to_cents x\<bar> + 100 \<le> 100 * 2 ^ k" using sum c cs_abs by simp
    then have "(of_int (\<bar>to_cents x\<bar> + 100) :: rat) \<le> of_int (100 * 2 ^ k)"
      by (simp only: of_int_le_iff)
    then have "\<bar>of_int (to_cents x) / 100\<bar> + 1 \<le> (2::rat) ^ k" by simp
    moreover have "\<bar>x\<bar> \<le> \<bar>of_int (to_cents x) / 100\<bar> + 1 / 200"
      using to_cents_error[of x] by linarith
    ultimately have "\<bar>x\<bar> < 2 ^ k" by linarith
    then have "\<bar>x\<bar> < 10 ^ 21" by (rule less_trans[OF _ less_trans[OF pk big]])
    then show ?thesis using x c by simp
  qed
  have parse: "parseFloat_str (toFixed2 (item_subtotal it)) = rnd (of_int (subtotal_cents it) / 100)"
    if "it \<in> set its" for it
    using each[OF that] parseFloat_toFixed2 by auto
  have fold: "foldl (\<lambda>sum it. jadd sum (parseFloat_str (toFixed2 (item_subtotal it)))) (Fin 0) its
      = foldl (\<lambda>s c. jadd s (rnd (of_int c / 100))) (Fin 0) cs"
    unfolding cs_def foldl_map by (rule foldl_cong) (simp_all add: parse)
  define \<delta> :: rat where "\<delta> = 2 powi (int k - 53)"
  have \<delta>: "\<delta> = 2 ^ k / 2 ^ 53"
    unfolding \<delta>_def by (simp add: power_int_diff)
  have "(of_nat (400 * length its * 2 ^ k) :: rat) < of_nat (2 ^ 53)"
    using len by (simp only: of_nat_less_iff)
  then have "400 * of_nat (length its) * (2::rat) ^ k < 2 ^ 53" by simp
  then have small: "2 * of_nat (length its) * \<delta> < 1 / 200"
    unfolding \<delta> by (simp add: field_simps)
  have "(\<Sum>c\<leftarrow>cs. \<bar>c\<bar>) + 100 \<le> 100 * 2 ^ k" using sum cs_abs by simp
  then have "(of_int ((\<Sum>c\<leftarrow>cs. \<bar>c\<bar>) + 100) :: rat) \<le> of_int (100 * 2 ^ k)"
    by (simp only: of_int_le_iff)
  then have abs_sum: "rat_of_int (\<Sum>c\<leftarrow>cs. \<bar>c\<bar>) / 100 + 1 \<le> 2 ^ k" by simp
  have b: "\<bar>0::rat\<bar> + (\<Sum>c\<leftarrow>cs. \<bar>rat_of_int c / 100\<bar>) + 1 \<le> 2 ^ k"
    unfolding sum_list_cents(1) using abs_sum by simp
  have e: "0 + 2 * of_nat (length cs) * 2 powi (int k - 53) \<le> (1::rat)"
    using small by (simp add: \<delta>_def cs_len)
  from sum_error[OF k1022 b _ e, of 0] obtain r where
    r: "foldl (\<lambda>s c. jadd s (rnd (of_int c / 100))) (Fin 0) cs = Fin r"
       "\<bar>r - (0 + (\<Sum>c\<leftarrow>cs. rat_of_int c / 100))\<bar> \<le> 0 + 2 * of_nat (length cs) * 2 powi (int k - 53)"
    by auto
  define K where "K = (\<Sum>it\<leftarrow>its. subtotal_cents it)"
  have K: "(\<Sum>c\<leftarrow>cs. rat_of_int c / 100) = of_int K / 100"
    by (simp add: sum_list_cents(2) K_def cs_sum)
  have close: "\<bar>r - of_int K / 100\<bar> < 1 / 200"
    using r(2) small unfolding K by (simp add: \<delta>_def cs_len)
  have tc: "to_cents r = K" using close by (rule to_cents_unique)
  have "\<bar>of_int K\<bar> \<le> (of_int (\<Sum>c\<leftarrow>cs. \<bar>c\<bar>) :: rat)"
  proof -
    have "\<bar>K\<bar> \<le> (\<Sum>c\<leftarrow>cs. \<bar>c\<bar>)" unfolding K_def
      using sum_list_abs[of cs] by (simp add: cs_sum)
    then show ?thesis by (metis of_int_abs of_int_le_iff)
  qed
  then have "\<bar>of_int K / 100 :: rat\<bar> + 1 \<le> 2 ^ k" using abs_sum by simp
  then have "\<bar>r\<bar> < 2 ^ k + 1" using close by linarith
  moreover have "(2::rat) ^ k + 1 \<le> 2 ^ 53"
  proof -
    have "(2::nat) ^ k + 1 \<le> 2 ^ 53" using lt by simp
    then have "(of_nat (2 ^ k + 1) :: rat) \<le> of_nat (2 ^ 53)" by (simp only: of_nat_le_iff)
    then show ?thesis by simp
  qed
  ultimately have "\<bar>r\<bar> < 2 ^ 53" by (rule less_le_trans)
  then have rbig: "\<bar>r\<bar> < 10 ^ 21" by (rule less_trans[OF _ big])
  have total: "shows_cents (calculatedTotal (itemsWithSubtotals its)) K"
    using toFixed2_shows_cents[OF rbig] tc by (simp add: calculatedTotal_fold fold r(1))
  have subs: "\<exists>s. get_prop (with_subtotal it) ''subtotal'' = Str s \<and> shows_cents s (subtotal_cents it)"
    if "it \<in> set its" for it
    using each[OF that] toFixed2_shows_cents by (auto simp: subtotal_field)
  show ?thesis using total subs unfolding K_def by blast
qed

text \<open>
  C1, as stated, fails: the total is a double-precision sum. With subtotals
  \<open>9007199254740992.00\<close> and \<open>1.00\<close> the total is \<open>9007199254740992.00\<close>, while the sum of
  the two subtotals is \<open>9007199254740993.00\<close>.
\<close>


theorem total_absorbs_small_subtotal_counterexample:
  "get_prop (with_subtotal mainframe) ''subtotal'' = Str ''9007199254740992.00''
   \<and> get_prop (with_subtotal cable) ''subtotal'' = Str ''1.00''
   \<and> calculatedTotal (itemsWithSubtotals [mainframe, cable]) = ''9007199254740992.00''
   \<and> fixed2 (subtotal_cents mainframe + subtotal_cents cable) = ''9007199254740993.00''"
  by code_simp

text \<open>
  C1, amended. Let \<open>k\<close> be such that the absolute values of the subtotals shown add up to at
  most \<open>2\<^sup>k - 1\<close> currency units and \<open>400 \<times> n \<times> 2\<^sup>k < 2\<^sup>5\<^sup>3\<close> for the number \<open>n\<close> of items, all
  subtotals being finite. Then every subtotal field is the two-decimal numeral of a
  number of cents, and the total is the two-decimal numeral of the exact sum of these
  cents (a sum of zero may print as \<open>-0.00\<close>). For the empty list the total is \<open>0.00\<close>; for
  the Widget and Gadget items the subtotals are \<open>20.00\<close> and \<open>15.00\<close> and the total is
  \<open>35.00\<close>.
\<close>


theorem total_is_sum_of_subtotals:
  "((\<forall>it \<in> set its. \<exists>x. item_subtotal it = Fin x)
      \<and> (\<Sum>it\<leftarrow>its. \<bar>subtotal_cents it\<bar>) + 100 \<le> 100 * 2 ^ k
      \<and> 400 * length its * 2 ^ k < 2 ^ 53
     \<longrightarrow> (\<forall>it \<in> set its. \<exists>s. get_prop (with_subtotal it) ''subtotal'' = Str s
                                     \<and> shows_cents s (subtotal_cents it))
         \<and> shows_cents (calculatedTotal (itemsWithSubtotals its))
                         (\<Sum>it\<leftarrow>its. subtotal_cents it))
   \<and> calculatedTotal (itemsWithSubtotals []) = ''0.00''
   \<and> get_prop (with_subtotal widget) ''subtotal'' = Str ''20.00''
   \<and> get_prop (with_subtotal gadget) ''subtotal'' = Str ''15.00''
   \<and> calculatedTotal (itemsWithSubtotals [widget, gadget]) = ''35.00''"
proof -
  have empty: "calculatedTotal (itemsWithSubtotals []) = ''0.00''" by code_simp
  have w: "get_prop (with_subtotal widget) ''subtotal'' = Str ''20.00''" by code_simp
  have g: "get_prop (with_subtotal gadget) ''subtotal'' = Str ''15.00''" by code_simp
  have t: "calculatedTotal (itemsWithSubtotals [widget, gadget]) = ''35.00''" by code_simp
  show ?thesis
    using total_of_bounded_items[of its k] empty w g t by blast
qed

theorem total_is_sum_of_subtotals_witness:
  "item_subtotal widget = Fin 20 \<and> item_subtotal gadget = Fin 15
   \<and> subtotal_cents widget = 2000 \<and> subtotal_cents gadget = 1500
   \<and> (\<Sum>it\<leftarrow>[widget, gadget]. \<bar>subtotal_cents it\<bar>) + 100 \<le> 100 * 2 ^ 6
   \<and> 400 * length [widget, gadget] * 2 ^ 6 < (2::nat) ^ 53
   \<and> shows_cents (calculatedTotal (itemsWithSubtotals [widget, gadget])) 3500
   \<and> fixed2 3500 = ''35.00''"
proof -
  have w: "item_subtotal widget = Fin 20" by code_simp
  have g: "item_subtotal gadget = Fin 15" by code_simp
  have cw: "subtotal_cents widget = 2000" by code_simp
  have cg: "subtotal_cents gadget = 1500" by code_simp
  have h1: "\<forall>it \<in> set [widget, gadget]. \<exists>x. item_subtotal it = Fin x" using w g by simp
  have h2: "(\<Sum>it\<leftarrow>[widget, gadget]. \<bar>subtotal_cents it\<bar>) + 100 \<le> 100 * 2 ^ 6"
    by (simp add: cw cg)
  have h3: "400 * length [widget, gadget] * 2 ^ 6 < (2::nat) ^ 53" by simp
  have f: "fixed2 3500 = ''35.00''" by code_simp
  have "shows_cents (calculatedTotal (itemsWithSubtotals [widget, gadget]))
          (\<Sum>it\<leftarrow>[widget, gadget]. subtotal_cents it)"
    using total_is_sum_of_subtotals[of "[widget, gadget]" 6] h1 h2 h3 by blast
  then have "shows_cents (calculatedTotal (itemsWithSubtotals [widget, gadget])) 3500"
    by (simp add: cw cg)
  then show ?thesis using w g cw cg h2 h3 f by simp
qed

section \<open>Prices and quantities that do not parse\<close>

text \<open>
  C2. A price given as the string \<open>abc\<close> is stripped to the empty string and parsed to
  \<open>NaN\<close>; the default \<open>|| 0\<close> is not applied to it: the fields \<open>price\<close> and \<open>subtotal\<close> and
  the total are \<open>NaN\<close>. A missing price and an unparsable quantity do default to \<open>0\<close>.
\<close>


theorem textual_price_without_number_is_NaN:
  "item_price unpriced = NaN
   \<and> get_prop (with_subtotal unpriced) ''price'' = Str ''NaN''
   \<and> get_prop (with_subtotal unpriced) ''quantity'' = Str ''2''
   \<and> get_prop (with_subtotal unpriced) ''subtotal'' = Str ''NaN''
   \<and> calculatedTotal (itemsWithSubtotals [unpriced]) = ''NaN''
   \<and> item_price gift = Fin 0
   \<and> item_quantity gift = Fin 0"
  by code_simp

lemma rnd_shape:
  "(if P1 then (if Q then NInf else PInf)
    else if P2 then (if P3 then (if Q then NInf else PInf) else Fin (if Q then b else a))
    else Fin (if Q then b else a)) \<in> {PInf, NInf, Fin a, Fin b}"
  by auto

lemma rnd_cases:
  assumes "q \<noteq> 0"
  shows "rnd q \<in> {PInf, NInf,
       Fin (of_int (round_half_even (\<bar>q\<bar> / 2 powi (max (flog 2 \<bar>q\<bar>) (- 1022) - 52)))
                          * 2 powi (max (flog 2 \<bar>q\<bar>) (- 1022) - 52)),
       Fin (- (of_int (round_half_even (\<bar>q\<bar> / 2 powi (max (flog 2 \<bar>q\<bar>) (- 1022) - 52)))
                          * 2 powi (max (flog 2 \<bar>q\<bar>) (- 1022) - 52)))}"
  unfolding rnd_def Let_def using assms by (simp only: if_False) (rule rnd_shape)

lemma round_half_even_of_int: "round_half_even (of_int j) = j"
  by (simp add: round_half_even_def)

lemma flog2_nonneg: "1 \<le> q \<Longrightarrow> 0 \<le> flog 2 q"
  using idigits_pos[of "\<lfloor>q\<rfloor>" 2] by (simp add: flog_def)

lemma rnd_of_int:
  "rnd (of_int k) = PInf \<or> rnd (of_int k) = NInf \<or> (\<exists>n. rnd (of_int k) = Fin (of_int n))"
proof (cases "k = 0")
  case True
  then have "rnd (of_int k) = Fin (of_int 0)" by (simp add: rnd_def)
  then show ?thesis by blast
next
  case False
  define q :: rat where "q = of_int k"
  have q0: "q \<noteq> 0" using False by (simp add: q_def)
  have q1: "1 \<le> \<bar>q\<bar>"
  proof -
    have "1 \<le> \<bar>k\<bar>" using False by simp
    then have "(of_int 1 :: rat) \<le> of_int \<bar>k\<bar>" by (simp only: of_int_le_iff)
    then show ?thesis by (simp add: q_def)
  qed
  define e where "e = max (flog 2 \<bar>q\<bar>) (- 1022)"
  have e0: "0 \<le> e" using flog2_nonneg[OF q1] by (simp add: e_def)
  define u :: rat where "u = 2 powi (e - 52)"
  define m where "m = round_half_even (\<bar>q\<bar> / u)"
  have int: "\<exists>n. of_int m * u = of_int n"
  proof (cases "52 \<le> e")
    case True
    then have "u = of_int (2 ^ nat (e - 52))" by (simp add: u_def power_int_def)
    then have "of_int m * u = of_int (m * 2 ^ nat (e - 52))" by simp
    then show ?thesis by blast
  next
    case False
    then have "e - 52 = - int (nat (52 - e))" by simp
    then have u: "u = 1 / 2 ^ nat (52 - e)"
      unfolding u_def by (simp only: power_int_minus power_int_of_nat) (simp add: field_simps)
    have "\<bar>q\<bar> / u = of_int (\<bar>k\<bar> * 2 ^ nat (52 - e))" by (simp add: u q_def)
    then have "m = \<bar>k\<bar> * 2 ^ nat (52 - e)" unfolding m_def by (simp only: round_half_even_of_int)
    then have "of_int m * u = of_int \<bar>k\<bar>" by (simp add: u)
    then show ?thesis by blast
  qed
  then obtain n where n: "of_int m * u = of_int n" by blast
  then have n': "- (of_int m * u) = of_int (- n)" by simp
  have "rnd q \<in> {PInf, NInf, Fin (of_int m * u), Fin (- (of_int m * u))}"
    using rnd_cases[OF q0] unfolding m_def u_def e_def .
  then consider "rnd q = PInf" | "rnd q = NInf" | "rnd q = Fin (of_int n)"
    | "rnd q = Fin (of_int (- n))"
    unfolding n by auto
  then show ?thesis
    unfolding q_def by cases blast+
qed

lemma parseInt_str_cases:
  "parseInt_str s = NaN \<or> (\<exists>k. parseInt_str s = rnd (of_int k))"
proof -
  have neg: "\<exists>k. rnd (- rat_of_int v) = rnd (rat_of_int k)" for v
    by (rule exI[of _ "- v"]) simp
  have pos: "\<exists>k. rnd (rat_of_int v) = rnd (rat_of_int k)" for v
    by blast
  show ?thesis
    unfolding parseInt_str_def Let_def
    by (simp add: neg pos split: prod.splits)
qed

lemma item_quantity_integer:
  "item_quantity it = PInf \<or> item_quantity it = NInf \<or> (\<exists>n. item_quantity it = Fin (of_int n))"
proof -
  have z: "Fin 0 = Fin (of_int 0)" by simp
  show ?thesis
    using parseInt_str_cases[of "to_string (get_prop it ''quantity'')"] rnd_of_int z
    unfolding item_quantity_def parseInt_def or_zero_def
    by (metis (full_types))
qed

text \<open>
  C8, as stated, fails: a quantity of \<open>-3\<close> is kept, with a negative subtotal.
\<close>


theorem negative_quantity_counterexample:
  "item_quantity returned = Fin (- 3)
   \<and> get_prop (with_subtotal returned) ''quantity'' = Str ''-3''
   \<and> get_prop (with_subtotal returned) ''subtotal'' = Str ''-13.50''"
  by code_simp

lemma price_not_string:
  "(\<forall>s. get_prop it ''price'' \<noteq> Str s) \<Longrightarrow> item_price it = or_zero (parseFloat (get_prop it ''price''))"
  by (cases "get_prop it ''price''") (simp_all add: item_price_def)

text \<open>
  C8, amended. The quantity of a line item is an integer of either sign or an infinity,
  never \<open>NaN\<close>; a quantity that does not parse gives \<open>0\<close>; a price that is not a string
  and does not parse gives \<open>0.00\<close>; the subtotal field is \<open>toFixed(2)\<close> of the double
  product of quantity and price, which for a finite product below \<open>10\<^sup>2\<^sup>1\<close> in absolute
  value is the two-decimal numeral of the nearest number of cents.
\<close>


theorem line_item_invariants:
  "(item_quantity it = PInf \<or> item_quantity it = NInf \<or> (\<exists>n. item_quantity it = Fin (of_int n)))
   \<and> (parseInt (get_prop it ''quantity'') = NaN
        \<longrightarrow> get_prop (with_subtotal it) ''quantity'' = Str ''0'')
   \<and> ((\<forall>s. get_prop it ''price'' \<noteq> Str s) \<and> parseFloat (get_prop it ''price'') = NaN
        \<longrightarrow> get_prop (with_subtotal it) ''price'' = Str ''0.00'')
   \<and> get_prop (with_subtotal it) ''subtotal''
        = Str (toFixed2 (jmul (item_quantity it) (item_price it)))
   \<and> (\<forall>x. jmul (item_quantity it) (item_price it) = Fin x \<and> \<bar>x\<bar> < 10 ^ 21
        \<longrightarrow> shows_cents (toFixed2 (Fin x)) (to_cents x)
            \<and> \<bar>of_int (to_cents x) / 100 - x\<bar> \<le> 1 / 200)"
proof -
  have z: "toFixed2 (Fin 0) = ''0.00''" by code_simp
  have q: "parseInt (get_prop it ''quantity'') = NaN
      \<longrightarrow> get_prop (with_subtotal it) ''quantity'' = Str ''0''"
    by (simp add: with_subtotal_def get_prop_def item_quantity_def or_zero_def)
  have p: "(\<forall>s. get_prop it ''price'' \<noteq> Str s) \<and> parseFloat (get_prop it ''price'') = NaN
      \<longrightarrow> get_prop (with_subtotal it) ''price'' = Str ''0.00''"
  proof
    assume a: "(\<forall>s. get_prop it ''price'' \<noteq> Str s) \<and> parseFloat (get_prop it ''price'') = NaN"
    then have "item_price it = Fin 0" using price_not_string[of it] by (simp add: or_zero_def)
    then have "(with_subtotal it) ''price'' = Some (Str ''0.00'')"
      by (simp add: with_subtotal_def z del: toFixed2.simps)
    then show "get_prop (with_subtotal it) ''price'' = Str ''0.00''"
      unfolding get_prop_def by simp
  qed
  have s: "get_prop (with_subtotal it) ''subtotal''
        = Str (toFixed2 (jmul (item_quantity it) (item_price it)))"
    by (simp add: subtotal_field item_subtotal_def)
  show ?thesis
    using item_quantity_integer[of it] q p s toFixed2_shows_cents to_cents_error by blast
qed

theorem line_item_invariants_witness:
  "parseInt (get_prop gift ''quantity'') = NaN
   \<and> get_prop gift ''price'' = Undefined
   \<and> parseFloat (get_prop gift ''price'') = NaN
   \<and> get_prop (with_subtotal gift) ''quantity'' = Str ''0''
   \<and> get_prop (with_subtotal gift) ''price'' = Str ''0.00''
   \<and> jmul (item_quantity widget) (item_price widget) = Fin 20
   \<and> \<bar>20 :: rat\<bar> < 10 ^ 21
   \<and> shows_cents (toFixed2 (Fin 20)) (to_cents 20)
   \<and> toFixed2 (Fin 20) = ''20.00''"
proof -
  have a: "parseInt (get_prop gift ''quantity'') = NaN" by code_simp
  have b: "get_prop gift ''price'' = Undefined" by code_simp
  have c: "parseFloat (get_prop gift ''price'') = NaN" by code_simp
  have d: "jmul (item_quantity widget) (item_price widget) = Fin 20" by code_simp
  have e: "\<bar>20 :: rat\<bar> < 10 ^ 21" by simp
  have f: "toFixed2 (Fin 20) = ''20.00''" by code_simp
  have b': "\<forall>s. get_prop gift ''price'' \<noteq> Str s" using b by simp
  show ?thesis
    using line_item_invariants[of gift] line_item_invariants[of widget] a b b' c d e f
    by blast
qed

section \<open>Integers as doubles\<close>

text \<open>
  An integer below \<open>2\<^sup>5\<^sup>3\<close> in absolute value is a double, and no other non-negative
  integer rounds to it.
\<close>

lemma flog2_less:
  assumes "0 < q" and "q < 2 powi k"
  shows "flog 2 q < k"
proof -
  have "2 powi (flog 2 q) < (2::rat) powi k"
    using flog2_bounds(1)[OF assms(1)] assms(2) by linarith
  then show ?thesis
    using power_int_increasing[of k "flog 2 q" "2::rat"] by force
qed

lemma flog2_ge:
  assumes "0 < q" and "2 powi k \<le> q"
  shows "k \<le> flog 2 q"
proof -
  have "(2::rat) powi k < 2 powi (flog 2 q + 1)"
    using flog2_bounds(2)[OF assms(1)] assms(2) by linarith
  then have "k < flog 2 q + 1"
    using power_int_increasing[of "flog 2 q + 1" k "2::rat"] by force
  then show ?thesis by simp
qed

lemma rnd_int_exact:
  assumes "\<bar>N\<bar> < 2 ^ 53"
  shows "rnd (of_int N) = Fin (of_int N)"
proof (cases "N = 0")
  case True
  then show ?thesis by (simp add: rnd_def)
next
  case False
  define q :: rat where "q = of_int N"
  have q0: "q \<noteq> 0" using False by (simp add: q_def)
  have aq: "\<bar>q\<bar> = of_int \<bar>N\<bar>" by (simp add: q_def)
  have "1 \<le> \<bar>N\<bar>" using False by simp
  then have q1: "1 \<le> \<bar>q\<bar>" unfolding aq by (simp only: of_int_1_le_iff)
  have "\<bar>q\<bar> < of_int (2 ^ 53)" unfolding aq using assms by (simp only: of_int_less_iff)
  then have "\<bar>q\<bar> < 2 powi 53" by simp
  then have f: "flog 2 \<bar>q\<bar> < 53" using flog2_less[of "\<bar>q\<bar>" 53] q1 by simp
  have f0: "0 \<le> flog 2 \<bar>q\<bar>" by (rule flog2_nonneg[OF q1])
  define e where "e = max (flog 2 \<bar>q\<bar>) (- 1022)"
  have e: "0 \<le> e" "e \<le> 52" using f f0 by (simp_all add: e_def)
  define u :: rat where "u = 2 powi (e - 52)"
  define m where "m = round_half_even (\<bar>q\<bar> / u)"
  have "e - 52 = - int (nat (52 - e))" using e by simp
  then have u: "u = 1 / 2 ^ nat (52 - e)"
    unfolding u_def by (simp only: power_int_minus power_int_of_nat) (simp add: field_simps)
  have "\<bar>q\<bar> / u = of_int (\<bar>N\<bar> * 2 ^ nat (52 - e))" by (simp add: u aq)
  then have "m = \<bar>N\<bar> * 2 ^ nat (52 - e)" unfolding m_def by (simp only: round_half_even_of_int)
  then have mu: "of_int m * u = of_int \<bar>N\<bar>" by (simp add: u)
  have e1: "max (flog 2 \<bar>q\<bar>) (- 1022) < 1023" using e unfolding e_def by simp
  have "rnd q = Fin (if q < 0 then - (of_int m * u) else of_int m * u)"
    using rnd_normal[OF q0 e1] unfolding m_def u_def e_def .
  then have "rnd q = Fin (if q < 0 then - of_int \<bar>N\<bar> else of_int \<bar>N\<bar>)" unfolding mu .
  then show ?thesis unfolding q_def by (simp add: abs_if)
qed

lemma round_half_even_ge_floor: "\<lfloor>y\<rfloor> \<le> round_half_even y"
  by (simp add: round_half_even_def Let_def)

lemma rnd_large:
  assumes "2 ^ 53 \<le> q"
  shows "rnd q \<noteq> Fin p \<or> 2 ^ 53 \<le> p"
proof -
  have "(0::rat) < 2 ^ 53" by simp
  then have q0: "0 < q" using assms by linarith
  have aq: "\<bar>q\<bar> = q" using q0 by simp
  have "(2::rat) powi 53 \<le> q" using assms by simp
  then have f: "53 \<le> flog 2 q" using flog2_ge[OF q0] by simp
  define e where "e = max (flog 2 \<bar>q\<bar>) (- 1022)"
  have e: "e = flog 2 q" "53 \<le> e" using f by (simp_all add: e_def aq)
  define u :: rat where "u = 2 powi (e - 52)"
  have u0: "0 < u" by (simp add: u_def)
  define m where "m = round_half_even (\<bar>q\<bar> / u)"
  have "2 powi e \<le> q" using flog2_bounds(1)[OF q0] e(1) by simp
  moreover have "(2::rat) powi e = 2 powi 52 * 2 powi (e - 52)"
  proof -
    have "(2::rat) powi (52 + (e - 52)) = 2 powi 52 * 2 powi (e - 52)"
      by (rule power_int_add) simp
    then show ?thesis by simp
  qed
  ultimately have "2 powi 52 * u \<le> q" by (simp add: u_def)
  then have "2 powi 52 \<le> q / u" using u0 by (simp add: pos_le_divide_eq)
  then have "(of_int (2 ^ 52) :: rat) \<le> q / u" by simp
  then have "2 ^ 52 \<le> \<lfloor>q / u\<rfloor>" by (simp only: le_floor_iff)
  then have m52: "2 ^ 52 \<le> m"
    using round_half_even_ge_floor[of "q / u"] unfolding m_def aq by linarith
  have "(2::rat) ^ 52 * u \<le> of_int m * u"
  proof (rule mult_right_mono)
    have "(of_int (2 ^ 52) :: rat) \<le> of_int m" using m52 by (simp only: of_int_le_iff)
    then show "(2::rat) ^ 52 \<le> of_int m" by simp
    show "0 \<le> u" using u0 by simp
  qed
  moreover have "(2::rat) ^ 53 \<le> 2 ^ 52 * u"
  proof -
    have "(2::rat) powi 1 \<le> 2 powi (e - 52)" using e(2) by (intro power_int_increasing) simp_all
    then show ?thesis by (simp add: u_def)
  qed
  ultimately have big: "(2::rat) ^ 53 \<le> of_int m * u" by linarith
  have "rnd q \<in> {PInf, NInf, Fin (of_int m * u)}"
    unfolding rnd_def Let_def m_def u_def e_def using q0 by (auto simp: aq)
  then show ?thesis using big by auto
qed

lemma rnd_int_inj:
  assumes "0 \<le> y" and "\<bar>N\<bar> < 2 ^ 53" and "rnd (of_int y) = Fin (of_int N)"
  shows "y = N"
proof (cases "y < 2 ^ 53")
  case True
  then have "rnd (of_int y) = Fin (of_int y)" using assms(1) by (intro rnd_int_exact) simp
  then show ?thesis using assms(3) by simp
next
  case False
  then have "2 ^ 53 \<le> y" by simp
  then have "(of_int (2 ^ 53) :: rat) \<le> of_int y" by (simp only: of_int_le_iff)
  then have "(2::rat) ^ 53 \<le> of_int y" by simp
  from rnd_large[OF this, of "of_int N"] assms(3) have "(2::rat) ^ 53 \<le> of_int N" by simp
  then have "(of_int (2 ^ 53) :: rat) \<le> of_int N" by simp
  then have "2 ^ 53 \<le> N" by (simp only: of_int_le_iff)
  then show ?thesis using assms(2) by simp
qed

section \<open>Printing an integer\<close>

text \<open>
  For a positive integer below \<open>2\<^sup>5\<^sup>3\<close> the search of \<open>toString\<close> ends with the digits
  of the integer without its trailing zeros: \<open>toString\<close> prints the decimal numeral.
\<close>

lemma show_nat_times10:
  assumes "1 \<le> m"
  shows "show_nat (10 * m) = show_nat m @ ''0''"
proof -
  have "\<not> 10 * m < 10" using assms by simp
  then have "show_nat (10 * m) = show_nat (10 * m div 10) @ [digit_char (10 * m mod 10)]"
    by (subst show_nat.simps) simp
  moreover have "digit_char 0 = CHR ''0''" by code_simp
  ultimately show ?thesis by simp
qed

lemma show_nat_pow10:
  assumes "1 \<le> s"
  shows "show_nat (s * 10 ^ j) = show_nat s @ replicate j (CHR ''0'')"
proof (induction j)
  case 0
  then show ?case by simp
next
  case (Suc j)
  have "(1::int) \<le> 10 ^ j" by simp
  then have "1 \<le> s * 10 ^ j" using mult_mono[of 1 s 1 "10 ^ j"] assms by simp
  from show_nat_times10[OF this] have "show_nat (s * 10 ^ Suc j) = show_nat (s * 10 ^ j) @ ''0''"
    by (simp add: mult.commute mult.left_commute)
  then show ?case using Suc by (simp add: replicate_append_same)
qed

lemma pick_closest_mem: "pick_closest x k c cs \<in> set (c # cs)"
  unfolding pick_closest_def
proof (induction cs arbitrary: c)
  case Nil
  then show ?case by simp
next
  case (Cons b cs)
  show ?case using Cons[of "if closer x k b c then b else c"] by auto
qed

lemma flog10_int:
  assumes "1 \<le> N"
  shows "flog 10 (of_int N) = idigits 10 N - 1"
proof -
  have "(1::rat) \<le> of_int N" using assms by simp
  then show ?thesis by (simp add: flog_def)
qed

lemma ten_powi_nat: "0 \<le> j \<Longrightarrow> (10::rat) powi j = of_int (10 ^ nat j)"
  by (simp add: power_int_def)

lemma shortest_cands_sound:
  assumes N: "1 \<le> N" "N < 2 ^ 53" and k: "1 \<le> k" "k \<le> idigits 10 N"
    and mem: "(s, n) \<in> set (shortest_cands (of_int N) k)"
  shows "n = idigits 10 N \<and> s * 10 ^ nat (idigits 10 N - k) = N"
proof -
  define L where "L = idigits 10 N"
  have b: "10 ^ nat (L - 1) \<le> N" "N < 10 ^ nat L"
    using idigits_bounds[of N 10] N(1) by (simp_all add: L_def)
  have n0: "flog 10 (of_int N) + 1 = L" using flog10_int[OF N(1)] by (simp add: L_def)
  from mem have nL: "n = L \<or> n = L + 1"
    and s1: "10 ^ nat (k - 1) \<le> s"
    and r: "rnd (of_int s * 10 powi (n - k)) = Fin (of_int N)"
    unfolding shortest_cands_def Let_def n0 by (auto split: if_splits)
  have nk: "0 \<le> n - k" using nL k(2) by (auto simp: L_def)
  have s0: "0 < s" using s1 by (smt (verit) zero_less_power)
  have "rnd (of_int (s * 10 ^ nat (n - k))) = Fin (of_int N)"
    using r by (simp add: ten_powi_nat[OF nk])
  moreover have "0 \<le> s * 10 ^ nat (n - k)" using s0 by simp
  moreover have "\<bar>N\<bar> < 2 ^ 53" using N by simp
  ultimately have eq: "s * 10 ^ nat (n - k) = N" by (rule rnd_int_inj[rotated 2])
  have "n \<noteq> L + 1"
  proof
    assume n: "n = L + 1"
    have "(10::int) ^ nat L = 10 ^ (nat (k - 1) + nat (n - k))"
      using n k by (intro arg_cong[of _ _ "\<lambda>j. (10::int) ^ j"]) (simp add: L_def)
    also have "\<dots> = 10 ^ nat (k - 1) * 10 ^ nat (n - k)" by (simp add: power_add)
    also have "\<dots> \<le> s * 10 ^ nat (n - k)" using s1 by (simp add: mult_right_mono)
    finally show False using eq b(2) by simp
  qed
  then have "n = L" using nL by simp
  then show ?thesis using eq by (simp add: L_def)
qed

lemma shortest_cands_complete:
  assumes N: "1 \<le> N" "N < 2 ^ 53"
  shows "shortest_cands (of_int N) (idigits 10 N) \<noteq> []"
proof -
  define L where "L = idigits 10 N"
  have b: "10 ^ nat (L - 1) \<le> N" "N < 10 ^ nat L"
    using idigits_bounds[of N 10] N(1) by (simp_all add: L_def)
  have n0: "flog 10 (of_int N) + 1 = L" using flog10_int[OF N(1)] by (simp add: L_def)
  have ex: "rnd (of_int N) = Fin (of_int N)" using N by (intro rnd_int_exact) simp
  have "(N, L) \<in> set (shortest_cands (of_int N) L)"
    unfolding shortest_cands_def Let_def n0 using b ex by simp
  then show ?thesis unfolding L_def by auto
qed

lemma shortest_of_int:
  assumes N: "1 \<le> N" "N < 2 ^ 53"
  shows "1 \<le> k \<Longrightarrow> k \<le> idigits 10 N \<Longrightarrow> nat (idigits 10 N - k) < fuel \<Longrightarrow>
     \<exists>s k'. shortest (of_int N) k fuel = Some (s, k', idigits 10 N)
        \<and> k' \<le> idigits 10 N \<and> s * 10 ^ nat (idigits 10 N - k') = N"
proof (induction fuel arbitrary: k)
  case 0
  then show ?case by simp
next
  case (Suc fuel)
  show ?case
  proof (cases "shortest_cands (of_int N) k")
    case Nil
    then have "k \<noteq> idigits 10 N" using shortest_cands_complete[OF N] by auto
    then have k': "1 \<le> k + 1" "k + 1 \<le> idigits 10 N" "nat (idigits 10 N - (k + 1)) < fuel"
      using Suc.prems by simp_all
    show ?thesis using Suc.IH[OF k'] Nil by simp
  next
    case (Cons c cs)
    obtain s n where p: "pick_closest (of_int N) k c cs = (s, n)"
      by (cases "pick_closest (of_int N) k c cs")
    then have "(s, n) \<in> set (shortest_cands (of_int N) k)"
      using pick_closest_mem[of "of_int N" k c cs] Cons by simp
    from shortest_cands_sound[OF N Suc.prems(1,2) this]
    show ?thesis using Cons p Suc.prems(2) by simp
  qed
qed

lemma idigits_le_16:
  assumes N: "1 \<le> N" "N < 2 ^ 53"
  shows "1 \<le> idigits 10 N" "idigits 10 N \<le> 16"
proof -
  show "1 \<le> idigits 10 N" using idigits_pos[of N 10] N(1) by simp
  have b: "10 ^ nat (idigits 10 N - 1) \<le> N" using idigits_bounds[of N 10] N(1) by simp
  show "idigits 10 N \<le> 16"
  proof (rule ccontr)
    assume "\<not> idigits 10 N \<le> 16"
    then have "16 \<le> nat (idigits 10 N - 1)" by simp
    then have "(10::int) ^ 16 \<le> 10 ^ nat (idigits 10 N - 1)" by (intro power_increasing) simp_all
    then show False using b N(2) by simp
  qed
qed

lemma toString_pos_int:
  assumes N: "1 \<le> N" "N < 2 ^ 53"
  shows "toString_pos (of_int N) = show_nat N"
proof -
  define L where "L = idigits 10 N"
  have L: "1 \<le> L" "L \<le> 16" using idigits_le_16[OF N] by (simp_all add: L_def)
  have f: "nat (idigits 10 N - 1) < 17" using L by (simp add: L_def)
  obtain s k where sh: "shortest (of_int N) 1 17 = Some (s, k, L)"
    and k: "k \<le> L" and eq: "s * 10 ^ nat (L - k) = N"
    using shortest_of_int[OF N _ _ f] L unfolding L_def by auto
  have s1: "1 \<le> s" using eq N(1) by (smt (verit) mult_le_0_iff zero_le_power)
  have "fmt_digits s k L = show_nat s @ replicate (nat (L - k)) (CHR ''0'')"
    using L k by (simp add: fmt_digits_def Let_def)
  also have "\<dots> = show_nat N" using show_nat_pow10[OF s1, of "nat (L - k)"] eq by simp
  finally show ?thesis by (simp add: toString_pos_def sh)
qed

lemma num_toString_int:
  assumes "\<bar>N\<bar> < 2 ^ 53"
  shows "num_toString (Fin (of_int N)) = show_int N"
proof -
  have z: "show_nat 0 = ''0''" by code_simp
  consider "N = 0" | "0 < N" | "N < 0" by linarith
  then show ?thesis
  proof cases
    case 1
    then show ?thesis by (simp add: show_int_def z)
  next
    case 2
    then have "toString_pos (of_int N) = show_nat N" using assms by (intro toString_pos_int) simp_all
    then show ?thesis using 2 by (simp add: show_int_def)
  next
    case 3
    then have "toString_pos (of_int (- N)) = show_nat (- N)"
      using assms by (intro toString_pos_int) simp_all
    then show ?thesis using 3 by (simp add: show_int_def)
  qed
qed

section \<open>Reading a numeral\<close>

text \<open>
  \<open>parseInt\<close> and \<open>parseFloat\<close> on a string of digits, with or without a minus sign, give
  the double nearest to its value.
\<close>

lemma digit_not_special:
  assumes "is_digit c"
  shows "\<not> is_ws c" "c \<noteq> CHR ''-''" "c \<noteq> CHR ''+''" "c \<noteq> CHR ''I''" "c \<noteq> CHR ''x''" "c \<noteq> CHR ''X''"
    "c \<noteq> CHR ''.''"
  using assms by (auto simp: is_digit_def is_ws_def)

lemma parseInt_str_digits:
  assumes "ds \<noteq> []" "\<forall>c \<in> set ds. is_digit c"
  shows "parseInt_str ds = rnd (of_int (dec_value ds))"
    and "parseInt_str (CHR ''-'' # ds) = rnd (- of_int (dec_value ds))"
proof -
  obtain c cs where ds: "ds = c # cs" using assms(1) by (cases ds) auto
  have c: "is_digit c" using assms(2) ds by simp
  note n = digit_not_special[OF c]
  have ws: "dropWhile is_ws ds = ds" using n ds by simp
  have sgn: "take_sign ds = (False, ds)" using n ds by simp
  have hx: "take 2 ds \<noteq> ''0x''" "take 2 ds \<noteq> ''0X''"
  proof -
    show "take 2 ds \<noteq> ''0x''"
    proof (cases cs)
      case Nil
      then show ?thesis using ds by simp
    next
      case (Cons d rest)
      then have "is_digit d" using assms(2) ds by simp
      then show ?thesis using ds Cons digit_not_special(5)[of d] by auto
    qed
    show "take 2 ds \<noteq> ''0X''"
    proof (cases cs)
      case Nil
      then show ?thesis using ds by simp
    next
      case (Cons d rest)
      then have "is_digit d" using assms(2) ds by simp
      then show ?thesis using ds Cons digit_not_special(6)[of d] by auto
    qed
  qed
  have tw: "takeWhile is_digit ds = ds" using takeWhile_digits(3)[OF assms(2)] .
  show "parseInt_str ds = rnd (of_int (dec_value ds))"
    unfolding parseInt_str_def ws sgn Let_def prod.case using hx assms(1) by (simp add: tw)
  have ws': "dropWhile is_ws (CHR ''-'' # ds) = CHR ''-'' # ds" by (simp add: is_ws_def)
  have sgn': "take_sign (CHR ''-'' # ds) = (True, ds)" by simp
  show "parseInt_str (CHR ''-'' # ds) = rnd (- of_int (dec_value ds))"
    unfolding parseInt_str_def ws' sgn' Let_def prod.case using hx assms(1) by (simp add: tw)
qed

lemma parseFloat_str_digits:
  assumes "ds \<noteq> []" "\<forall>c \<in> set ds. is_digit c"
  shows "parseFloat_str ds = rnd (of_int (dec_value ds))"
    and "parseFloat_str (CHR ''-'' # ds) = rnd (- of_int (dec_value ds))"
proof -
  obtain c cs where ds: "ds = c # cs" using assms(1) by (cases ds) auto
  have c: "is_digit c" using assms(2) ds by simp
  note n = digit_not_special[OF c]
  have ws: "dropWhile is_ws ds = ds" using n ds by simp
  have sgn: "take_sign ds = (False, ds)" using n ds by simp
  have inf: "take 8 ds \<noteq> ''Infinity''" using n(4) ds by auto
  have tw: "takeWhile is_digit ds = ds" "dropWhile is_digit ds = []"
    using takeWhile_digits(3,4)[OF assms(2)] by simp_all
  have ex: "exponent_part [] = 0" by (simp add: exponent_part_def)
  show "parseFloat_str ds = rnd (of_int (dec_value ds))"
    unfolding parseFloat_str_def ws sgn Let_def prod.case tw using inf assms(1) by (simp add: ex)
  have ws': "dropWhile is_ws (CHR ''-'' # ds) = CHR ''-'' # ds" by (simp add: is_ws_def)
  have sgn': "take_sign (CHR ''-'' # ds) = (True, ds)" by simp
  show "parseFloat_str (CHR ''-'' # ds) = rnd (- of_int (dec_value ds))"
    unfolding parseFloat_str_def ws' sgn' Let_def prod.case tw using inf assms(1) by (simp add: ex)
qed

lemma parse_show_int:
  "parseInt_str (show_int n) = rnd (of_int n)" "parseFloat_str (show_int n) = rnd (of_int n)"
proof -
  have p: "show_nat m \<noteq> []" "\<forall>c \<in> set (show_nat m). is_digit c" "dec_value (show_nat m) = m"
    if "0 \<le> m" for m using show_nat_props[OF that] by simp_all
  show "parseInt_str (show_int n) = rnd (of_int n)"
  proof (cases "n < 0")
    case True
    then have m: "0 \<le> - n" by simp
    show ?thesis using parseInt_str_digits(2)[OF p(1,2)[OF m]] p(3)[OF m] True
      by (simp add: show_int_def)
  next
    case False
    then have m: "0 \<le> n" by simp
    show ?thesis using parseInt_str_digits(1)[OF p(1,2)[OF m]] p(3)[OF m] False
      by (simp add: show_int_def)
  qed
  show "parseFloat_str (show_int n) = rnd (of_int n)"
  proof (cases "n < 0")
    case True
    then have m: "0 \<le> - n" by simp
    show ?thesis using parseFloat_str_digits(2)[OF p(1,2)[OF m]] p(3)[OF m] True
      by (simp add: show_int_def)
  next
    case False
    then have m: "0 \<le> n" by simp
    show ?thesis using parseFloat_str_digits(1)[OF p(1,2)[OF m]] p(3)[OF m] False
      by (simp add: show_int_def)
  qed
qed

section \<open>Quantities and prices of the usual forms\<close>

text \<open>
  A quantity that is an integer below \<open>2\<^sup>5\<^sup>3\<close> in absolute value, as a number or as
  its decimal numeral, is parsed to that integer and printed as its numeral. A price
  whose text spells an amount with two decimals, or an integer, is printed as that
  amount with two decimals.
\<close>

lemma or_zero_Fin: "or_zero (Fin x) = Fin x"
  by (simp add: or_zero_def)

lemma quantity_of_integer:
  assumes "get_prop it ''quantity'' = Str (show_int n) \<or> get_prop it ''quantity'' = Num (Fin (of_int n))"
    and "\<bar>n\<bar> < 2 ^ 53"
  shows "item_quantity it = Fin (of_int n)"
    and "num_toString (item_quantity it) = show_int n"
proof -
  have "to_string (get_prop it ''quantity'') = show_int n"
    using assms(1) num_toString_int[OF assms(2)] by (auto simp del: num_toString.simps)
  then have "parseInt (get_prop it ''quantity'') = rnd (of_int n)"
    by (simp add: parseInt_def parse_show_int)
  then show q: "item_quantity it = Fin (of_int n)"
    by (simp add: item_quantity_def rnd_int_exact[OF assms(2)] or_zero_Fin)
  show "num_toString (item_quantity it) = show_int n"
    unfolding q by (rule num_toString_int[OF assms(2)])
qed

lemma fixed2_0: "fixed2 c = ''0.00'' \<Longrightarrow> toFixed2 (Fin 0) = fixed2 c"
  by (simp add: toFixed2_pos_def fixed2_digits_def) code_simp

lemma toFixed2_rnd_cents:
  assumes "\<bar>c\<bar> \<le> 100 * 2 ^ 45"
  shows "toFixed2 (rnd (of_int c / 100)) = fixed2 c"
proof -
  define q :: rat where "q = of_int c / 100"
  have "\<bar>q\<bar> = of_int \<bar>c\<bar> / 100" by (simp add: q_def)
  also have "\<dots> \<le> of_int (100 * 2 ^ 45) / 100"
  proof -
    have "rat_of_int \<bar>c\<bar> \<le> of_int (100 * 2 ^ 45)" using assms by (simp only: of_int_le_iff)
    then show ?thesis by (rule divide_right_mono) simp
  qed
  finally have "\<bar>q\<bar> \<le> 2 powi 45" by simp
  from rnd_error[OF this] obtain p where p: "rnd q = Fin p" and e: "\<bar>p - q\<bar> \<le> 2 powi (45 - 53)"
    by auto
  have e': "\<bar>p - q\<bar> \<le> 1 / 256" using e by (simp add: power_int_minus)
  then have "\<bar>p - of_int c / 100\<bar> < 1 / 200" unfolding q_def by linarith
  then have tc: "to_cents p = c" by (rule to_cents_unique)
  have "\<bar>q\<bar> \<le> 35184372088832" using \<open>\<bar>q\<bar> \<le> 2 powi 45\<close> by simp
  then have "\<bar>p\<bar> < 1000000000000000000000" using e' by linarith
  then have big: "\<bar>p\<bar> < 10 ^ 21" by simp
  have sgn: "(p < 0) = (c < 0)"
  proof (cases "c = 0")
    case True
    then have "rnd q = Fin 0" by (simp add: q_def rnd_def)
    then show ?thesis using p True by simp
  next
    case False
    show ?thesis
    proof (cases "c < 0")
      case True
      then have "c \<le> - 1" by simp
      then have "(of_int c :: rat) \<le> of_int (- 1)" by (simp only: of_int_le_iff)
      then have "q \<le> - 1 / 100" by (simp add: q_def)
      then show ?thesis using e' True by linarith
    next
      case False
      with \<open>c \<noteq> 0\<close> have "1 \<le> c" by simp
      then have "(of_int 1 :: rat) \<le> of_int c" by (simp only: of_int_le_iff)
      then have "1 / 100 \<le> q" by (simp add: q_def)
      then show ?thesis using e' False by linarith
    qed
  qed
  show ?thesis
    using toFixed2_cents[OF big] p tc sgn unfolding q_def by (simp add: fixed2_def)
qed

lemma parseFloat_fixed2: "parseFloat_str (fixed2 c) = rnd (of_int c / 100)"
proof (cases "c < 0")
  case True
  then have "0 \<le> - c" by simp
  from parseFloat_fixed2_digits(2)[OF this] show ?thesis using True by (simp add: fixed2_def)
next
  case False
  then have "0 \<le> c" by simp
  from parseFloat_fixed2_digits(1)[OF this] show ?thesis using False by (simp add: fixed2_def)
qed

lemma price_of_two_decimal_text:
  assumes "get_prop it ''price'' = Str s"
    and "filter (\<lambda>ch. is_digit ch \<or> ch = CHR ''.'' \<or> ch = CHR ''-'') s = fixed2 c"
    and "\<bar>c\<bar> \<le> 100 * 2 ^ 45"
  shows "toFixed2 (item_price it) = fixed2 c"
proof (cases "s = ''0.00''")
  case True
  have "filter (\<lambda>ch. is_digit ch \<or> ch = CHR ''.'' \<or> ch = CHR ''-'') ''0.00'' = ''0.00''"
    by (simp add: is_digit_def)
  then have f: "fixed2 c = ''0.00''" using assms(2) True by simp
  have "parseFloat_str ''0.00'' = Fin 0" by code_simp
  then have "item_price it = Fin 0"
    using assms(1) True by (simp add: item_price_def parseFloat_def or_zero_def)
  then show ?thesis using fixed2_0[OF f] by simp
next
  case False
  then have "item_price it = parseFloat_str (fixed2 c)"
    using assms(1,2) by (simp add: item_price_def strip_non_numeric_def)
  then show ?thesis using toFixed2_rnd_cents[OF assms(3)] by (simp add: parseFloat_fixed2)
qed

lemma toFixed2_int:
  assumes "\<bar>n\<bar> < 2 ^ 53"
  shows "toFixed2 (Fin (of_int n)) = fixed2 (100 * n)"
proof -
  have big: "\<bar>rat_of_int n\<bar> < 10 ^ 21"
  proof -
    have "\<bar>n\<bar> < 10 ^ 21" using assms by simp
    then have "rat_of_int \<bar>n\<bar> < of_int (10 ^ 21)" by (simp only: of_int_less_iff)
    then show ?thesis by simp
  qed
  have tc: "to_cents (of_int n) = 100 * n"
    by (rule to_cents_unique) simp
  have sgn: "(rat_of_int n < 0) = (100 * n < 0)" by simp
  show ?thesis
    using toFixed2_cents[OF big] tc sgn by (simp add: fixed2_def)
qed

lemma price_of_integer:
  assumes "get_prop it ''price'' = Num (Fin (of_int n))" and "\<bar>n\<bar> < 2 ^ 53"
  shows "toFixed2 (item_price it) = fixed2 (100 * n)"
proof -
  have "to_string (get_prop it ''price'') = show_int n"
    using assms(1) num_toString_int[OF assms(2)] by (simp del: num_toString.simps)
  then have "parseFloat (get_prop it ''price'') = Fin (of_int n)"
    by (simp add: parseFloat_def parse_show_int rnd_int_exact[OF assms(2)])
  then have "item_price it = Fin (of_int n)"
    using assms(1) by (simp add: item_price_def or_zero_Fin)
  then show ?thesis using toFixed2_int[OF assms(2)] by simp
qed

lemma two_decimals_fixed2_digits:
  assumes "0 \<le> n"
  shows "two_decimals (fixed2_digits n)" and "two_decimals (CHR ''-'' # fixed2_digits n)"
proof -
  obtain ip fp where s: "fixed2_digits n = ip @ CHR ''.'' # fp" "ip \<noteq> []" "length fp = 2"
      "\<forall>c \<in> set ip. is_digit c" "\<forall>c \<in> set fp. is_digit c"
    using fixed2_digits_shape[OF assms] by auto
  obtain c cs where ip: "ip = c # cs" using s(2) by (cases ip) auto
  have c: "c \<noteq> CHR ''-''" using s(4) ip digit_not_special(2)[of c] by auto
  have tw: "takeWhile is_digit (ip @ CHR ''.'' # fp) = ip"
      "dropWhile is_digit (ip @ CHR ''.'' # fp) = CHR ''.'' # fp"
    using takeWhile_digits(1,2)[OF s(4), of fp] by simp_all
  have t1: "take 1 (ip @ CHR ''.'' # fp) \<noteq> ''-''" using ip c by simp
  show "two_decimals (fixed2_digits n)"
    unfolding two_decimals_def s(1) Let_def using t1 s(2,3,5) by (simp add: tw list_all_iff)
  show "two_decimals (CHR ''-'' # fixed2_digits n)"
    unfolding two_decimals_def s(1) Let_def using s(2,3,5) by (simp add: tw list_all_iff)
qed

lemma shows_cents_two_decimals:
  assumes "shows_cents s c"
  shows "two_decimals s"
proof -
  have z: "two_decimals ''-0.00''" by code_simp
  show ?thesis
    using assms z two_decimals_fixed2_digits[of c] two_decimals_fixed2_digits[of "- c"]
    by (auto simp: shows_cents_def fixed2_def split: if_splits)
qed

lemma get_prop_Some: "it k = Some v \<Longrightarrow> get_prop it k = v"
  by (simp add: get_prop_def)

lemma with_subtotal_fields:
  "f \<noteq> ''price'' \<and> f \<noteq> ''quantity'' \<and> f \<noteq> ''subtotal'' \<longrightarrow> (with_subtotal it) f = it f"
  "(with_subtotal it) ''price'' = Some (Str (toFixed2 (item_price it)))"
  "(with_subtotal it) ''quantity'' = Some (Str (num_toString (item_quantity it)))"
  by (simp_all add: with_subtotal_def)

lemma price_of_integer_text:
  assumes "get_prop it ''price'' = Str s"
    and "filter (\<lambda>ch. is_digit ch \<or> ch = CHR ''.'' \<or> ch = CHR ''-'') s = show_int n"
    and "\<bar>n\<bar> < 2 ^ 53"
  shows "toFixed2 (item_price it) = fixed2 (100 * n)"
proof -
  have f00: "filter (\<lambda>ch. is_digit ch \<or> ch = CHR ''.'' \<or> ch = CHR ''-'') ''0.00'' = ''0.00''"
    by (simp add: is_digit_def)
  have nd: "CHR ''.'' \<notin> set (show_nat m)" if "0 \<le> m" for m
  proof
    assume "CHR ''.'' \<in> set (show_nat m)"
    then have "is_digit (CHR ''.'')" using show_nat_props[OF that] by blast
    then show False by (simp add: is_digit_def)
  qed
  have ni: "CHR ''.'' \<notin> set (show_int n)"
    using nd[of n] nd[of "- n"] by (simp add: show_int_def)
  have "s \<noteq> ''0.00''"
  proof
    assume "s = ''0.00''"
    then have "show_int n = ''0.00''" using assms(2) by (simp only: f00)
    then have "CHR ''.'' \<in> set (show_int n)" by simp
    then show False using ni by simp
  qed
  then have "item_price it = parseFloat_str (show_int n)"
    using assms(1,2) by (simp add: item_price_def strip_non_numeric_def)
  then have "item_price it = Fin (of_int n)"
    by (simp add: parse_show_int rnd_int_exact[OF assms(3)])
  then show ?thesis using toFixed2_int[OF assms(3)] by simp
qed

section \<open>What normalization leaves alone\<close>

text \<open>
  C10, as stated, fails: a price of \<open>1e21\<close> is rewritten to \<open>1e+21\<close>, which is not a
  two-decimal numeral, and a quantity of \<open>1000000000000000000000\<close> to \<open>1e+21\<close>.
\<close>

theorem price_in_exponent_form_counterexample:
  "(itemsWithSubtotals [bulk, crate] ! 0) ''price'' = Some (Str ''1e+21'')
   \<and> \<not> two_decimals ''1e+21''
   \<and> item_price bulk = Fin 1000000000000000000000
   \<and> (itemsWithSubtotals [bulk, crate] ! 1) ''quantity'' = Some (Str ''1e+21'')"
  by code_simp

text \<open>
  C10, amended. \<open>itemsWithSubtotals\<close> has one item for each input item, in the same order;
  an item keeps every field but \<open>price\<close>, \<open>quantity\<close> and \<open>subtotal\<close>, in particular \<open>name\<close>.
  Its \<open>price\<close> becomes \<open>toFixed(2)\<close> of the parsed price: when that price is finite and
  below \<open>10\<^sup>2\<^sup>1\<close> in absolute value, the two-decimal numeral of the nearest number of
  cents. A textual price whose digits, points and minus signs spell a two-decimal
  amount of at most \<open>2\<^sup>4\<^sup>5\<close> units becomes that amount; a price that is an integer below
  \<open>2\<^sup>5\<^sup>3\<close> in absolute value, as a number or spelled by the digits and minus signs of a
  text, becomes that integer with two zero decimals. Its \<open>quantity\<close> becomes \<open>toString()\<close>
  of the parsed quantity: the decimal numeral of that quantity when it is an integer
  below \<open>2\<^sup>5\<^sup>3\<close> in absolute value, as it is for a quantity given as such an integer or
  as its decimal numeral.
\<close>

theorem itemsWithSubtotals_frame:
  "length (itemsWithSubtotals its) = length its
   \<and> (\<forall>i < length its.
        (\<forall>f. f \<noteq> ''price'' \<and> f \<noteq> ''quantity'' \<and> f \<noteq> ''subtotal''
              \<longrightarrow> (itemsWithSubtotals its ! i) f = (its ! i) f)
        \<and> (itemsWithSubtotals its ! i) ''name'' = (its ! i) ''name''
        \<and> (itemsWithSubtotals its ! i) ''price'' = Some (Str (toFixed2 (item_price (its ! i))))
        \<and> (itemsWithSubtotals its ! i) ''quantity''
             = Some (Str (num_toString (item_quantity (its ! i))))
        \<and> (\<forall>p. item_price (its ! i) = Fin p \<and> \<bar>p\<bar> < 10 ^ 21
              \<longrightarrow> shows_cents (toFixed2 (item_price (its ! i))) (to_cents p)
                  \<and> two_decimals (toFixed2 (item_price (its ! i)))
                  \<and> \<bar>of_int (to_cents p) / 100 - p\<bar> \<le> 1 / 200)
        \<and> (\<forall>s c. (its ! i) ''price'' = Some (Str s)
                  \<and> filter (\<lambda>ch. is_digit ch \<or> ch = CHR ''.'' \<or> ch = CHR ''-'') s = fixed2 c
                  \<and> \<bar>c\<bar> \<le> 100 * 2 ^ 45
              \<longrightarrow> (itemsWithSubtotals its ! i) ''price'' = Some (Str (fixed2 c)))
        \<and> (\<forall>s n. (its ! i) ''price'' = Some (Str s)
                  \<and> filter (\<lambda>ch. is_digit ch \<or> ch = CHR ''.'' \<or> ch = CHR ''-'') s = show_int n
                  \<and> \<bar>n\<bar> < 2 ^ 53
              \<longrightarrow> (itemsWithSubtotals its ! i) ''price'' = Some (Str (fixed2 (100 * n))))
        \<and> (\<forall>n. (its ! i) ''price'' = Some (Num (Fin (of_int n))) \<and> \<bar>n\<bar> < 2 ^ 53
              \<longrightarrow> (itemsWithSubtotals its ! i) ''price'' = Some (Str (fixed2 (100 * n))))
        \<and> (\<forall>n. item_quantity (its ! i) = Fin (of_int n) \<and> \<bar>n\<bar> < 2 ^ 53
              \<longrightarrow> (itemsWithSubtotals its ! i) ''quantity'' = Some (Str (show_int n)))
        \<and> (\<forall>n. ((its ! i) ''quantity'' = Some (Str (show_int n))
                  \<or> (its ! i) ''quantity'' = Some (Num (Fin (of_int n))))
                \<and> \<bar>n\<bar> < 2 ^ 53
              \<longrightarrow> (itemsWithSubtotals its ! i) ''quantity'' = Some (Str (show_int n))))"
proof (intro conjI allI impI)
  show "length (itemsWithSubtotals its) = length its" by (simp add: itemsWithSubtotals_def)
next
  fix i f
  assume "i < length its" "f \<noteq> ''price'' \<and> f \<noteq> ''quantity'' \<and> f \<noteq> ''subtotal''"
  then show "(itemsWithSubtotals its ! i) f = (its ! i) f"
    using with_subtotal_fields(1)[of f "its ! i"] by (simp add: itemsWithSubtotals_def)
next
  fix i assume "i < length its"
  then show "(itemsWithSubtotals its ! i) ''name'' = (its ! i) ''name''"
    using with_subtotal_fields(1)[of "''name''" "its ! i"] by (simp add: itemsWithSubtotals_def)
next
  fix i assume "i < length its"
  then show "(itemsWithSubtotals its ! i) ''price'' = Some (Str (toFixed2 (item_price (its ! i))))"
    by (simp add: itemsWithSubtotals_def with_subtotal_fields(2))
next
  fix i assume "i < length its"
  then show "(itemsWithSubtotals its ! i) ''quantity''
      = Some (Str (num_toString (item_quantity (its ! i))))"
    by (simp add: itemsWithSubtotals_def with_subtotal_fields(3))
next
  fix i p assume "i < length its" and p: "item_price (its ! i) = Fin p \<and> \<bar>p\<bar> < 10 ^ 21"
  then show "shows_cents (toFixed2 (item_price (its ! i))) (to_cents p)"
    using toFixed2_shows_cents[of p] by simp
  then show "two_decimals (toFixed2 (item_price (its ! i)))" by (rule shows_cents_two_decimals)
  show "\<bar>of_int (to_cents p) / 100 - p\<bar> \<le> 1 / 200" by (rule to_cents_error)
next
  fix i s c
  assume i: "i < length its"
    and a: "(its ! i) ''price'' = Some (Str s)
       \<and> filter (\<lambda>ch. is_digit ch \<or> ch = CHR ''.'' \<or> ch = CHR ''-'') s = fixed2 c
       \<and> \<bar>c\<bar> \<le> 100 * 2 ^ 45"
  have "toFixed2 (item_price (its ! i)) = fixed2 c"
    using a by (intro price_of_two_decimal_text[of _ s]) (simp_all add: get_prop_Some)
  then show "(itemsWithSubtotals its ! i) ''price'' = Some (Str (fixed2 c))"
    using i by (simp add: itemsWithSubtotals_def with_subtotal_fields(2))
next
  fix i s n
  assume i: "i < length its"
    and a: "(its ! i) ''price'' = Some (Str s)
       \<and> filter (\<lambda>ch. is_digit ch \<or> ch = CHR ''.'' \<or> ch = CHR ''-'') s = show_int n
       \<and> \<bar>n\<bar> < 2 ^ 53"
  have "toFixed2 (item_price (its ! i)) = fixed2 (100 * n)"
    using a by (intro price_of_integer_text[of _ s]) (simp_all add: get_prop_Some)
  then show "(itemsWithSubtotals its ! i) ''price'' = Some (Str (fixed2 (100 * n)))"
    using i by (simp add: itemsWithSubtotals_def with_subtotal_fields(2))
next
  fix i n
  assume i: "i < length its"
    and a: "item_quantity (its ! i) = Fin (of_int n) \<and> \<bar>n\<bar> < 2 ^ 53"
  then have "num_toString (item_quantity (its ! i)) = show_int n"
    using num_toString_int[of n] by simp
  then show "(itemsWithSubtotals its ! i) ''quantity'' = Some (Str (show_int n))"
    using i by (simp add: itemsWithSubtotals_def with_subtotal_fields(3))
next
  fix i n
  assume i: "i < length its"
    and a: "(its ! i) ''price'' = Some (Num (Fin (of_int n))) \<and> \<bar>n\<bar> < 2 ^ 53"
  have "toFixed2 (item_price (its ! i)) = fixed2 (100 * n)"
    using a by (intro price_of_integer) (simp_all add: get_prop_Some)
  then show "(itemsWithSubtotals its ! i) ''price'' = Some (Str (fixed2 (100 * n)))"
    using i by (simp add: itemsWithSubtotals_def with_subtotal_fields(2))
next
  fix i n
  assume i: "i < length its"
    and a: "((its ! i) ''quantity'' = Some (Str (show_int n))
                  \<or> (its ! i) ''quantity'' = Some (Num (Fin (of_int n))))
                \<and> \<bar>n\<bar> < 2 ^ 53"
  then have "get_prop (its ! i) ''quantity'' = Str (show_int n)
      \<or> get_prop (its ! i) ''quantity'' = Num (Fin (of_int n))"
    using get_prop_Some[of "its ! i" "''quantity''"] by auto
  then have "num_toString (item_quantity (its ! i)) = show_int n"
    using a by (intro quantity_of_integer(2)) simp_all
  then show "(itemsWithSubtotals its ! i) ''quantity'' = Some (Str (show_int n))"
    using i by (simp add: itemsWithSubtotals_def with_subtotal_fields(3))
qed

theorem itemsWithSubtotals_frame_witness:
  "length (itemsWithSubtotals [widget, gadget, cable, loose]) = 4
   \<and> ''name'' \<noteq> ''price'' \<and> ''name'' \<noteq> ''quantity'' \<and> ''name'' \<noteq> ''subtotal''
   \<and> (itemsWithSubtotals [widget, gadget, cable, loose] ! 1) ''name'' = Some (Str ''Gadget'')
   \<and> widget ''price'' = Some (Str ''$10.00'')
   \<and> filter (\<lambda>ch. is_digit ch \<or> ch = CHR ''.'' \<or> ch = CHR ''-'') ''$10.00'' = fixed2 1000
   \<and> \<bar>1000 :: int\<bar> \<le> 100 * 2 ^ 45
   \<and> (itemsWithSubtotals [widget, gadget, cable, loose] ! 0) ''price'' = Some (Str ''10.00'')
   \<and> widget ''quantity'' = Some (Str (show_int 2)) \<and> \<bar>2 :: int\<bar> < 2 ^ 53
   \<and> (itemsWithSubtotals [widget, gadget, cable, loose] ! 0) ''quantity'' = Some (Str ''2'')
   \<and> gadget ''price'' = Some (Num (Fin (of_int 5))) \<and> \<bar>5 :: int\<bar> < 2 ^ 53
   \<and> (itemsWithSubtotals [widget, gadget, cable, loose] ! 1) ''price'' = Some (Str ''5.00'')
   \<and> item_quantity gadget = Fin (of_int 3) \<and> \<bar>3 :: int\<bar> < 2 ^ 53
   \<and> (itemsWithSubtotals [widget, gadget, cable, loose] ! 1) ''quantity'' = Some (Str ''3'')
   \<and> cable ''price'' = Some (Str ''1'')
   \<and> filter (\<lambda>ch. is_digit ch \<or> ch = CHR ''.'' \<or> ch = CHR ''-'') ''1'' = show_int 1
   \<and> \<bar>1 :: int\<bar> < 2 ^ 53
   \<and> (itemsWithSubtotals [widget, gadget, cable, loose] ! 2) ''price'' = Some (Str ''1.00'')
   \<and> loose ''price'' = Some (Str ''USD 1,234.50'')
   \<and> filter (\<lambda>ch. is_digit ch \<or> ch = CHR ''.'' \<or> ch = CHR ''-'') ''USD 1,234.50'' = fixed2 123450
   \<and> \<bar>123450 :: int\<bar> \<le> 100 * 2 ^ 45
   \<and> (itemsWithSubtotals [widget, gadget, cable, loose] ! 3) ''price'' = Some (Str ''1234.50'')
   \<and> item_quantity loose = Fin (of_int 2)
   \<and> (itemsWithSubtotals [widget, gadget, cable, loose] ! 3) ''quantity'' = Some (Str ''2'')
   \<and> item_price gadget = Fin 5 \<and> \<bar>5 :: rat\<bar> < 10 ^ 21
   \<and> shows_cents ''5.00'' (to_cents 5) \<and> two_decimals ''5.00''"
proof -
  let ?its = "[widget, gadget, cable, loose]"
  note T = itemsWithSubtotals_frame[of ?its]
  have l0: "0 < length ?its" and l1: "1 < length ?its" and l2: "2 < length ?its"
    and l3: "3 < length ?its" by simp_all
  have i0: "?its ! 0 = widget" and i1: "?its ! 1 = gadget" and i2: "?its ! 2 = cable"
    and i3: "?its ! 3 = loose" by simp_all
  note T3 = T[THEN conjunct2, rule_format, OF l3, unfolded i3]
  note T0 = T[THEN conjunct2, rule_format, OF l0, unfolded i0]
  note T1 = T[THEN conjunct2, rule_format, OF l1, unfolded i1]
  note T2 = T[THEN conjunct2, rule_format, OF l2, unfolded i2]
  have len: "length (itemsWithSubtotals ?its) = 4" using T[THEN conjunct1] by simp
  have f: "''name'' \<noteq> ''price'' \<and> ''name'' \<noteq> ''quantity'' \<and> ''name'' \<noteq> ''subtotal''" by simp
  have gn: "gadget ''name'' = Some (Str ''Gadget'')" by (simp add: gadget_def)
  have nm: "(itemsWithSubtotals ?its ! 1) ''name'' = Some (Str ''Gadget'')"
    using mp[OF spec[OF conjunct1[OF T1]] f] by (simp only: gn)
  have wp: "widget ''price'' = Some (Str ''$10.00'')" by (simp add: widget_def)
  have wf: "filter (\<lambda>ch. is_digit ch \<or> ch = CHR ''.'' \<or> ch = CHR ''-'') ''$10.00'' = fixed2 1000"
    by code_simp
  have wb: "\<bar>1000 :: int\<bar> \<le> 100 * 2 ^ 45" by simp
  have f1000: "fixed2 1000 = ''10.00''" by code_simp
  note P1 = T0[THEN conjunct2, THEN conjunct2, THEN conjunct2, THEN conjunct2, THEN conjunct2,
      THEN conjunct1]
  have wpr: "(itemsWithSubtotals ?its ! 0) ''price'' = Some (Str ''10.00'')"
    using mp[OF spec[OF spec[OF P1]] conjI[OF wp conjI[OF wf wb]]] by (simp only: f1000)
  have wq: "widget ''quantity'' = Some (Str (show_int 2))"
  proof -
    have "show_int 2 = ''2''" by code_simp
    then show ?thesis by (simp add: widget_def)
  qed
  have b2: "\<bar>2 :: int\<bar> < 2 ^ 53" and b5: "\<bar>5 :: int\<bar> < 2 ^ 53" and b3: "\<bar>3 :: int\<bar> < 2 ^ 53"
    and b1: "\<bar>1 :: int\<bar> < 2 ^ 53" by simp_all
  have s2: "show_int 2 = ''2''" and s3: "show_int 3 = ''3''" by code_simp+
  note Q2 = T0[THEN conjunct2, THEN conjunct2, THEN conjunct2, THEN conjunct2, THEN conjunct2,
      THEN conjunct2, THEN conjunct2, THEN conjunct2, THEN conjunct2]
  have wqu: "(itemsWithSubtotals ?its ! 0) ''quantity'' = Some (Str ''2'')"
    using mp[OF spec[OF Q2] conjI[OF disjI1[OF wq] b2]] by (simp only: s2)
  have gp: "gadget ''price'' = Some (Num (Fin (of_int 5)))" by (simp add: gadget_def)
  have f500: "fixed2 (100 * 5) = ''5.00''" by code_simp
  note P3 = T1[THEN conjunct2, THEN conjunct2, THEN conjunct2, THEN conjunct2, THEN conjunct2,
      THEN conjunct2, THEN conjunct2, THEN conjunct1]
  have gpr: "(itemsWithSubtotals ?its ! 1) ''price'' = Some (Str ''5.00'')"
    using mp[OF spec[OF P3] conjI[OF gp b5]] by (simp only: f500)
  have gq: "item_quantity gadget = Fin (of_int 3)" by code_simp
  note Q1 = T1[THEN conjunct2, THEN conjunct2, THEN conjunct2, THEN conjunct2, THEN conjunct2,
      THEN conjunct2, THEN conjunct2, THEN conjunct2, THEN conjunct1]
  have gqu: "(itemsWithSubtotals ?its ! 1) ''quantity'' = Some (Str ''3'')"
    using mp[OF spec[OF Q1] conjI[OF gq b3]] by (simp only: s3)
  have cp: "cable ''price'' = Some (Str ''1'')" by (simp add: cable_def)
  have cf: "filter (\<lambda>ch. is_digit ch \<or> ch = CHR ''.'' \<or> ch = CHR ''-'') ''1'' = show_int 1"
    by code_simp
  have f100: "fixed2 (100 * 1) = ''1.00''" by code_simp
  note P2 = T2[THEN conjunct2, THEN conjunct2, THEN conjunct2, THEN conjunct2, THEN conjunct2,
      THEN conjunct2, THEN conjunct1]
  have cpr: "(itemsWithSubtotals ?its ! 2) ''price'' = Some (Str ''1.00'')"
    using mp[OF spec[OF spec[OF P2]] conjI[OF cp conjI[OF cf b1]]] by (simp only: f100)
  have lp: "loose ''price'' = Some (Str ''USD 1,234.50'')" by (simp add: loose_def)
  have lf: "filter (\<lambda>ch. is_digit ch \<or> ch = CHR ''.'' \<or> ch = CHR ''-'') ''USD 1,234.50''
      = fixed2 123450"
    by code_simp
  have lb: "\<bar>123450 :: int\<bar> \<le> 100 * 2 ^ 45" by simp
  have f123450: "fixed2 123450 = ''1234.50''" by code_simp
  note P1' = T3[THEN conjunct2, THEN conjunct2, THEN conjunct2, THEN conjunct2, THEN conjunct2,
      THEN conjunct1]
  have lpr: "(itemsWithSubtotals ?its ! 3) ''price'' = Some (Str ''1234.50'')"
    using mp[OF spec[OF spec[OF P1']] conjI[OF lp conjI[OF lf lb]]] by (simp only: f123450)
  have lq: "item_quantity loose = Fin (of_int 2)" by code_simp
  note Q1' = T3[THEN conjunct2, THEN conjunct2, THEN conjunct2, THEN conjunct2, THEN conjunct2,
      THEN conjunct2, THEN conjunct2, THEN conjunct2, THEN conjunct1]
  have lqu: "(itemsWithSubtotals ?its ! 3) ''quantity'' = Some (Str ''2'')"
    using mp[OF spec[OF Q1'] conjI[OF lq b2]] by (simp only: s2)
  have p: "item_price gadget = Fin 5" by code_simp
  have p': "toFixed2 (Fin 5) = ''5.00''" by code_simp
  have e: "\<bar>5 :: rat\<bar> < 10 ^ 21" by simp
  note G = T1[THEN conjunct2, THEN conjunct2, THEN conjunct2, THEN conjunct2, THEN conjunct1]
  have g: "shows_cents (toFixed2 (item_price gadget)) (to_cents 5)
      \<and> two_decimals (toFixed2 (item_price gadget))
      \<and> \<bar>of_int (to_cents 5) / 100 - (5 :: rat)\<bar> \<le> 1 / 200"
    by (rule mp[OF spec[OF G] conjI[OF p e]])
  have sc: "shows_cents ''5.00'' (to_cents 5)" using conjunct1[OF g] by (simp only: p p')
  have td: "two_decimals ''5.00''" using conjunct1[OF conjunct2[OF g]] by (simp only: p p')
  show ?thesis
    by (intro conjI len nm wp wf wb wpr wq b2 wqu gp b5 gpr gq b3 gqu cp cf b1 cpr
          lp lf lb lpr lq lqu p e sc td
          conjunct1[OF f] conjunct1[OF conjunct2[OF f]] conjunct2[OF conjunct2[OF f]])
qed

end
